theory Spec2Isabelle
  imports Complex_Main "HOL-Library.Multiset"
begin

section \<open>Python values\<close>

text \<open>
  A Python \<open>str\<close> is a sequence of Unicode code points, and \<open>len\<close> counts code
  points: a string is a list of natural numbers, \<open>ord\<close> reads the code point.
  \<open>py\<close> embeds an ASCII literal.

  \<open>str.lower\<close> is Python's built-in Unicode lowercasing (it may change the length of a
  string, as for U+0130). It is not code of the repository: every function that calls it takes
  it as the parameter \<open>lower\<close>, and the theorems hold for every such function.
  \<open>ascii_lower\<close> is the restriction of \<open>str.lower\<close> to ASCII text, used where a
  concrete function is evaluated.

  The relevance score of one CV is computed in double precision, as the code computes it
  (section Python floats); a record holds a score as a real, the value of the double, and
  the batch average is stated over the reals. The wall-clock fields of the results
  (\<open>execution_time\<close>, \<open>timestamp\<close>) are left out of the records, except in the PDF
  extractor, where the two readings of the clock are parameters.

  The local variables \<open>matches\<close> and \<open>comparisons\<close> of the source are written
  \<open>ms\<close> and \<open>cnt\<close>: the record fields carry the source's names.
\<close>

type_synonym pystr = "nat list"

definition py :: "string \<Rightarrow> pystr" where
  "py s = map of_char s"

definition ord :: "nat \<Rightarrow> int" where
  "ord c = int c"

definition ascii_lower :: "pystr \<Rightarrow> pystr" where
  "ascii_lower s = map (\<lambda>c. if 65 \<le> c \<and> c \<le> 90 then c + 32 else c) s"

text \<open>The code points on which \<open>str.isspace\<close> is true; \<open>str.strip()\<close> removes them
  from both ends.\<close>

definition isspace :: "nat \<Rightarrow> bool" where
  "isspace c = (c \<in> set [9, 10, 11, 12, 13, 28, 29, 30, 31, 32, 133, 160, 5760,
     8192, 8193, 8194, 8195, 8196, 8197, 8198, 8199, 8200, 8201, 8202,
     8232, 8233, 8239, 8287, 12288])"

definition strip :: "pystr \<Rightarrow> pystr" where
  "strip s = rev (dropWhile isspace (rev (dropWhile isspace s)))"

datatype error = IndexError | ValueError pystr

section \<open>Python floats\<close>

text \<open>
  A Python \<open>float\<close> is an IEEE-754 double. A finite double is a pair \<open>(m, e)\<close> of
  integers, with the value \<open>m * 2^e\<close>. Every result of an operation is rounded to the
  nearest double, the one with the even significand when two are equally near.
  \<open>round_ratio p q s\<close> is the double nearest to \<open>(p / q) * 2^s\<close>, for \<open>p \<ge> 0\<close> and
  \<open>q > 0\<close>: no value of the score computation is negative. With \<open>e\<close> the exponent of
  the leading bit of \<open>p / q\<close>, the quotient is scaled to a significand of 53 bits and
  rounded there. The exponent is not bounded: a list in memory has fewer than \<open>2^63\<close>
  entries, so that the score computation neither overflows nor reaches a subnormal.

  \<open>float_of_int\<close> is the conversion of a Python \<open>int\<close>, \<open>float_truediv\<close> the
  division \<open>/\<close> of two integers (which Python rounds once), \<open>float_mul\<close>,
  \<open>float_add\<close> and \<open>float_lt\<close> the operations on doubles, \<open>py_min x y\<close> the built-in
  \<open>min(x, y)\<close>, which returns \<open>x\<close> unless \<open>y < x\<close>. A decimal literal is the double
  nearest to it.
\<close>

type_synonym double = "int \<times> int"

function bits :: "int \<Rightarrow> nat" where
  "bits n = (if n \<le> 0 then 0 else Suc (bits (n div 2)))"
  by pat_completeness auto
termination
  by (relation "measure nat") auto

declare bits.simps [simp del]

definition round_ratio :: "int \<Rightarrow> int \<Rightarrow> int \<Rightarrow> double" where
  "round_ratio p q s =
     (if p \<le> 0 then (0, 0)
      else (let d = int (bits p) - int (bits q);
                e = (if (if 0 \<le> d then q * 2 ^ nat d \<le> p else q \<le> p * 2 ^ nat (- d))
                     then d else d - 1);
                u = e - 52;
                num = (if 0 \<le> u then p else p * 2 ^ nat (- u));
                den = (if 0 \<le> u then q * 2 ^ nat u else q);
                m = num div den;
                r = num mod den;
                m = (if 2 * r < den then m
                     else if den < 2 * r then m + 1
                     else if even m then m else m + 1)
            in (m, u + s)))"

definition value_of :: "double \<Rightarrow> real" where
  "value_of x =
     (case x of (m, e) \<Rightarrow>
        if 0 \<le> e then of_int m * 2 ^ nat e else of_int m / 2 ^ nat (- e))"

definition float_of_int :: "int \<Rightarrow> double" where
  "float_of_int n = round_ratio n 1 0"

definition float_truediv :: "int \<Rightarrow> int \<Rightarrow> double" where
  "float_truediv a b = round_ratio a b 0"

definition float_mul :: "double \<Rightarrow> double \<Rightarrow> double" where
  "float_mul x y =
     (case x of (m1, e1) \<Rightarrow> case y of (m2, e2) \<Rightarrow>
        round_ratio (m1 * m2) 1 (e1 + e2))"

definition float_add :: "double \<Rightarrow> double \<Rightarrow> double" where
  "float_add x y =
     (case x of (m1, e1) \<Rightarrow> case y of (m2, e2) \<Rightarrow>
        (let e = min e1 e2
         in round_ratio (m1 * 2 ^ nat (e1 - e) + m2 * 2 ^ nat (e2 - e)) 1 e))"

definition float_lt :: "double \<Rightarrow> double \<Rightarrow> bool" where
  "float_lt x y =
     (case x of (m1, e1) \<Rightarrow> case y of (m2, e2) \<Rightarrow>
        (let e = min e1 e2 in m1 * 2 ^ nat (e1 - e) < m2 * 2 ^ nat (e2 - e)))"

definition py_min :: "double \<Rightarrow> double \<Rightarrow> double" where
  "py_min x y = (if float_lt y x then y else x)"

text \<open>The literals \<open>0.1\<close>, \<open>0.01\<close> and \<open>1.0\<close>.\<close>

definition lit_0_1 :: double where
  "lit_0_1 = round_ratio 1 10 0"

definition lit_0_01 :: double where
  "lit_0_01 = round_ratio 1 100 0"

definition lit_1_0 :: double where
  "lit_1_0 = round_ratio 1 1 0"

section \<open>engine/algorithms.py\<close>

record SearchResult =
  matches :: "nat list"
  comparisons :: nat
  algorithm_name :: pystr
  pattern_length :: nat
  text_length :: nat

definition base :: int where
  "base = 256"

definition prime :: int where
  "prime = 101"

text \<open>
  The verification loop shared by Brute Force and Rabin-Karp:
  \<^verbatim>\<open>while j < m and text[i + j] == pattern[j]: comparisons += 1; j += 1\<close>.
  Both callers have \<open>i + m \<le> n\<close>, so \<open>text[i + j]\<close> is read in range.
\<close>

function compare_while :: "pystr \<Rightarrow> pystr \<Rightarrow> nat \<Rightarrow> nat \<Rightarrow> nat \<Rightarrow> nat \<times> nat" where
  "compare_while text pattern i j cnt =
     (if j < length pattern \<and> text ! (i + j) = pattern ! j
      then compare_while text pattern i (j + 1) (cnt + 1)
      else (j, cnt))"
  by pat_completeness auto
termination
  by (relation "measure (\<lambda>(text, pattern, i, j, cnt). length pattern - j)") auto

declare compare_while.simps [simp del]

text \<open>One iteration of \<open>for i in range(n - m + 1)\<close> of \<open>brute_force_search\<close>, on the
  state \<open>(matches, comparisons)\<close>.\<close>

definition bf_step :: "pystr \<Rightarrow> pystr \<Rightarrow> nat \<Rightarrow> nat list \<times> nat \<Rightarrow> nat list \<times> nat" where
  "bf_step text pattern i s =
     (case s of (ms, cnt) \<Rightarrow>
        (case compare_while text pattern i 0 cnt of (j, cnt) \<Rightarrow>
           (let cnt = (if j < length pattern then cnt + 1 else cnt)
            in if j = length pattern then (ms @ [i], cnt)
               else (ms, cnt))))"

definition brute_force_search ::
    "(pystr \<Rightarrow> pystr) \<Rightarrow> pystr \<Rightarrow> pystr \<Rightarrow> bool \<Rightarrow> SearchResult" where
  "brute_force_search lower text0 pattern0 case_sensitive =
     (let text = (if \<not> case_sensitive then lower text0 else text0);
          pattern = (if \<not> case_sensitive then lower pattern0 else pattern0);
          n = length text;
          m = length pattern
      in if m > n
         then \<lparr>matches = [], comparisons = 0, algorithm_name = py ''Brute Force'',
               pattern_length = m, text_length = n\<rparr>
         else (case fold (bf_step text pattern) [0..<n - m + 1] ([], 0) of
                 (ms, cnt) \<Rightarrow>
                   \<lparr>matches = ms, comparisons = cnt,
                    algorithm_name = py ''Brute Force'',
                    pattern_length = m, text_length = n\<rparr>))"

text \<open>\<open>h = base^(m-1) mod prime\<close> by repeated multiplication over \<open>range(m - 1)\<close>
  (empty when \<open>m\<close> is 0 or 1).\<close>

definition rk_h :: "nat \<Rightarrow> int" where
  "rk_h m = fold (\<lambda>i h. (h * base) mod prime) [0..<m - 1] 1"

text \<open>The initial hash values, by Horner's rule over \<open>range(m)\<close>; the state is
  \<open>(pattern_hash, text_hash)\<close>.\<close>

definition rk_init :: "pystr \<Rightarrow> pystr \<Rightarrow> int \<times> int" where
  "rk_init text pattern =
     fold (\<lambda>i (pattern_hash, text_hash).
             ((base * pattern_hash + ord (pattern ! i)) mod prime,
              (base * text_hash + ord (text ! i)) mod prime))
          [0..<length pattern] (0, 0)"

text \<open>One iteration of the sliding loop of \<open>rabin_karp_search\<close>, on the state
  \<open>(matches, comparisons, hash_collisions, text_hash)\<close>. Python's \<open>%\<close> with a positive
  modulus is the floor modulus, as \<open>mod\<close> on \<open>int\<close> is.\<close>

definition rk_step ::
    "pystr \<Rightarrow> pystr \<Rightarrow> int \<Rightarrow> int \<Rightarrow> nat \<Rightarrow> nat list \<times> nat \<times> nat \<times> int
       \<Rightarrow> nat list \<times> nat \<times> nat \<times> int" where
  "rk_step text pattern pattern_hash h i s =
     (case s of (ms, cnt, hash_collisions, text_hash) \<Rightarrow>
        (let n = length text; m = length pattern;
             (ms, cnt, hash_collisions) =
               (if pattern_hash = text_hash
                then (case compare_while text pattern i 0 cnt of (j, cnt) \<Rightarrow>
                        (let cnt = (if j < m then cnt + 1 else cnt)
                         in if j = m then (ms @ [i], cnt, hash_collisions)
                            else (ms, cnt, hash_collisions + 1)))
                else (ms, cnt, hash_collisions));
             text_hash =
               (if i < n - m
                then (let text_hash =
                            (base * (text_hash - ord (text ! i) * h) + ord (text ! (i + m)))
                              mod prime
                      in if text_hash < 0 then text_hash + prime else text_hash)
                else text_hash)
         in (ms, cnt, hash_collisions, text_hash)))"

text \<open>The state of the sliding loop when iteration \<open>i\<close> begins.\<close>

definition rk_state :: "pystr \<Rightarrow> pystr \<Rightarrow> nat \<Rightarrow> nat list \<times> nat \<times> nat \<times> int" where
  "rk_state text pattern i =
     fold (rk_step text pattern (fst (rk_init text pattern)) (rk_h (length pattern)))
          [0..<i] ([], 0, 0, snd (rk_init text pattern))"

definition rabin_karp_search ::
    "(pystr \<Rightarrow> pystr) \<Rightarrow> pystr \<Rightarrow> pystr \<Rightarrow> bool \<Rightarrow> SearchResult" where
  "rabin_karp_search lower text0 pattern0 case_sensitive =
     (let text = (if \<not> case_sensitive then lower text0 else text0);
          pattern = (if \<not> case_sensitive then lower pattern0 else pattern0);
          n = length text;
          m = length pattern
      in if m > n
         then \<lparr>matches = [], comparisons = 0, algorithm_name = py ''Rabin-Karp'',
               pattern_length = m, text_length = n\<rparr>
         else (case rk_state text pattern (n - m + 1) of
                 (ms, cnt, hash_collisions, text_hash) \<Rightarrow>
                   \<lparr>matches = ms, comparisons = cnt,
                    algorithm_name = py ''Rabin-Karp'',
                    pattern_length = m, text_length = n\<rparr>))"

text \<open>
  \<open>_build_failure_function\<close>: the loop \<open>while i < m\<close> on the state
  \<open>(i, length, lps)\<close>. The fall-back \<open>length = lps[length - 1]\<close> shortens \<open>length\<close>
  only if the array holds smaller values, so the loop is a partial function
  (\<open>None\<close> is a loop that never ends), and every index is checked as Python checks it.
\<close>

partial_function (option) build_loop ::
    "pystr \<Rightarrow> nat \<Rightarrow> nat \<Rightarrow> nat list \<Rightarrow> (error + nat list) option" where
  "build_loop pattern i len lps =
     (if i < length pattern
      then (if len \<ge> length pattern then Some (Inl IndexError)
            else if pattern ! i = pattern ! len
            then (if i \<ge> length lps then Some (Inl IndexError)
                  else build_loop pattern (i + 1) (len + 1) (lps[i := len + 1]))
            else if len \<noteq> 0
            then (if len - 1 \<ge> length lps then Some (Inl IndexError)
                  else build_loop pattern i (lps ! (len - 1)) lps)
            else (if i \<ge> length lps then Some (Inl IndexError)
                  else build_loop pattern (i + 1) len (lps[i := 0])))
      else Some (Inr lps))"

declare build_loop.simps [code]

definition build_failure_function :: "pystr \<Rightarrow> (error + nat list) option" where
  "build_failure_function pattern =
     build_loop pattern 1 0 (replicate (length pattern) 0)"

text \<open>
  The matching loop of \<open>kmp_search\<close>, \<open>while i < n\<close>, on the state
  \<open>(i, j, matches, comparisons)\<close>. \<open>pattern[j]\<close> raises IndexError when the pattern is
  empty.
\<close>

partial_function (option) kmp_loop ::
    "pystr \<Rightarrow> pystr \<Rightarrow> nat list \<Rightarrow> nat \<Rightarrow> nat \<Rightarrow> nat list \<Rightarrow> nat
       \<Rightarrow> (error + nat list \<times> nat) option" where
  "kmp_loop text pattern lps i j ms cnt =
     (if i < length text
      then (if j \<ge> length pattern then Some (Inl IndexError)
            else
              (let hit = (text ! i = pattern ! j);
                   cnt = (if hit then cnt + 1 else cnt);
                   i = (if hit then i + 1 else i);
                   j = (if hit then j + 1 else j)
               in if j = length pattern
                  then (if j - 1 \<ge> length lps then Some (Inl IndexError)
                        else kmp_loop text pattern lps i (lps ! (j - 1))
                               (ms @ [i - j]) cnt)
                  else if i < length text \<and> text ! i \<noteq> pattern ! j
                  then (if j \<noteq> 0
                        then (if j - 1 \<ge> length lps then Some (Inl IndexError)
                              else kmp_loop text pattern lps i (lps ! (j - 1))
                                     ms (cnt + 1))
                        else kmp_loop text pattern lps (i + 1) j ms (cnt + 1))
                  else kmp_loop text pattern lps i j ms cnt))
      else Some (Inr (ms, cnt)))"

declare kmp_loop.simps [code]

definition kmp_search ::
    "(pystr \<Rightarrow> pystr) \<Rightarrow> pystr \<Rightarrow> pystr \<Rightarrow> bool \<Rightarrow> (error + SearchResult) option" where
  "kmp_search lower text0 pattern0 case_sensitive =
     (let text = (if \<not> case_sensitive then lower text0 else text0);
          pattern = (if \<not> case_sensitive then lower pattern0 else pattern0);
          n = length text;
          m = length pattern
      in if m > n
         then Some (Inr \<lparr>matches = [], comparisons = 0, algorithm_name = py ''KMP'',
                         pattern_length = m, text_length = n\<rparr>)
         else (case build_failure_function pattern of
                 None \<Rightarrow> None
               | Some (Inl e) \<Rightarrow> Some (Inl e)
               | Some (Inr lps) \<Rightarrow>
                   (case kmp_loop text pattern lps 0 0 [] 0 of
                      None \<Rightarrow> None
                    | Some (Inl e) \<Rightarrow> Some (Inl e)
                    | Some (Inr (ms, cnt)) \<Rightarrow>
                        Some (Inr \<lparr>matches = ms, comparisons = cnt,
                                   algorithm_name = py ''KMP'',
                                   pattern_length = m, text_length = n\<rparr>))))"

section \<open>engine/analyzer.py\<close>

text \<open>
  \<open>JobDescription.id\<close> and \<open>JobDescription.keywords\<close> are written \<open>job_id\<close> and
  \<open>job_keywords\<close>; the fields \<open>job_description\<close> and
  \<open>algorithm_used\<close> of \<open>BatchAnalysisResult\<close> are written \<open>batch_job_description\<close>
  and \<open>batch_algorithm_used\<close>, since \<open>AnalysisResult\<close> has fields of the same names.
\<close>

record JobDescription =
  job_id :: int
  title :: pystr
  description :: pystr
  job_keywords :: "pystr list"
  created_at :: pystr

record AnalysisResult =
  cv_filename :: pystr
  job_description :: pystr
  algorithm_used :: pystr
  matched_keywords :: "pystr list"
  missing_keywords :: "pystr list"
  relevance_score :: real
  comparison_count :: nat
  total_keywords :: nat

record BatchAnalysisResult =
  batch_job_description :: JobDescription
  batch_algorithm_used :: pystr
  cv_results :: "AnalysisResult list"
  average_relevance_score :: real
  total_cvs_analyzed :: nat

text \<open>\<open>_calculate_relevance_score\<close>, in double arithmetic; the result is the value
  of the double that the function returns.\<close>

definition calculate_relevance_score :: "pystr list \<Rightarrow> pystr list \<Rightarrow> real" where
  "calculate_relevance_score matched total_kws =
     (if total_kws = [] then 0
      else (let base_score = float_truediv (int (length matched)) (int (length total_kws));
                base_score = (if length matched > 0
                              then float_add base_score
                                     (py_min lit_0_1
                                        (float_mul (float_of_int (int (length matched)))
                                           lit_0_01))
                              else base_score)
            in value_of (py_min lit_1_0 base_score)))"

text \<open>The \<open>if\<close>/\<open>elif\<close> chain of \<open>analyze_cv\<close> that runs the chosen algorithm on
  one keyword; the last branch is \<open>raise ValueError(f"Unknown algorithm: {algorithm}")\<close>.\<close>

definition run_algorithm ::
    "(pystr \<Rightarrow> pystr) \<Rightarrow> pystr \<Rightarrow> pystr \<Rightarrow> pystr \<Rightarrow> bool \<Rightarrow> (error + SearchResult) option" where
  "run_algorithm lower algorithm cv_text keyword case_sensitive =
     (if algorithm = py ''Brute Force''
      then Some (Inr (brute_force_search lower cv_text keyword case_sensitive))
      else if algorithm = py ''Rabin-Karp''
      then Some (Inr (rabin_karp_search lower cv_text keyword case_sensitive))
      else if algorithm = py ''KMP''
      then kmp_search lower cv_text keyword case_sensitive
      else Some (Inl (ValueError (py ''Unknown algorithm: '' @ algorithm))))"

text \<open>The loop \<open>for keyword in keywords\<close> of \<open>analyze_cv\<close>, on the state
  \<open>(matched_keywords, missing_keywords, total_comparisons)\<close>; an exception ends it.\<close>

fun analyze_loop ::
    "(pystr \<Rightarrow> pystr) \<Rightarrow> pystr \<Rightarrow> pystr \<Rightarrow> bool \<Rightarrow> pystr list
       \<Rightarrow> pystr list \<times> pystr list \<times> nat
       \<Rightarrow> (error + pystr list \<times> pystr list \<times> nat) option" where
  "analyze_loop lower cv_text algorithm case_sensitive [] st = Some (Inr st)"
| "analyze_loop lower cv_text algorithm case_sensitive (kw # kws)
       (matched, missing, total_comparisons) =
     (let keyword = strip kw
      in if keyword = []
         then analyze_loop lower cv_text algorithm case_sensitive kws
                (matched, missing, total_comparisons)
         else (case run_algorithm lower algorithm cv_text keyword case_sensitive of
                 None \<Rightarrow> None
               | Some (Inl e) \<Rightarrow> Some (Inl e)
               | Some (Inr result) \<Rightarrow>
                   analyze_loop lower cv_text algorithm case_sensitive kws
                     (if matches result \<noteq> []
                      then (matched @ [keyword], missing,
                            total_comparisons + comparisons result)
                      else (matched, missing @ [keyword],
                            total_comparisons + comparisons result))))"

definition analyze_cv ::
    "(pystr \<Rightarrow> pystr) \<Rightarrow> pystr \<Rightarrow> pystr list \<Rightarrow> pystr \<Rightarrow> bool
       \<Rightarrow> (error + AnalysisResult) option" where
  "analyze_cv lower cv_text kwds algorithm case_sensitive =
     (if cv_text = [] \<or> kwds = []
      then Some (Inr \<lparr>cv_filename = [], job_description = [], algorithm_used = algorithm,
                      matched_keywords = [], missing_keywords = kwds,
                      relevance_score = 0, comparison_count = 0,
                      total_keywords = length kwds\<rparr>)
      else (case analyze_loop lower cv_text algorithm case_sensitive kwds ([], [], 0) of
              None \<Rightarrow> None
            | Some (Inl e) \<Rightarrow> Some (Inl e)
            | Some (Inr (matched, missing, total_comparisons)) \<Rightarrow>
                Some (Inr \<lparr>cv_filename = [], job_description = [],
                           algorithm_used = algorithm,
                           matched_keywords = matched, missing_keywords = missing,
                           relevance_score = calculate_relevance_score matched kwds,
                           comparison_count = total_comparisons,
                           total_keywords = length kwds\<rparr>)))"




text \<open>The batch statistic: the mean of the strictly positive scores, \<open>0.0\<close> without one.\<close>

definition average_relevance :: "AnalysisResult list \<Rightarrow> real" where
  "average_relevance results =
     (let valid_results = filter (\<lambda>r. relevance_score r > 0) results
      in if valid_results \<noteq> []
         then sum_list (map relevance_score valid_results) / real (length valid_results)
         else 0)"


text \<open>
  \<open>sorted(xs, key=key, reverse=True)\<close>: Python's sort is stable, and with
  \<open>reverse=True\<close> elements with equal keys keep their original order: the list is
  reversed, sorted stably in ascending order of the key, and reversed again.
  \<open>xs[:k]\<close> keeps the first \<open>k\<close> elements when \<open>k\<close> is not negative, and drops the
  last \<open>-k\<close> elements when it is.
\<close>

definition sorted_reverse :: "('a \<Rightarrow> real) \<Rightarrow> 'a list \<Rightarrow> 'a list" where
  "sorted_reverse key xs = rev (sort_key key (rev xs))"

definition slice_to :: "'a list \<Rightarrow> int \<Rightarrow> 'a list" where
  "slice_to xs k = (if 0 \<le> k then take (nat k) xs else take (length xs - nat (- k)) xs)"

definition get_top_matching_cvs :: "BatchAnalysisResult \<Rightarrow> int \<Rightarrow> AnalysisResult list" where
  "get_top_matching_cvs batch_result top_n =
     (let sorted_results = sorted_reverse relevance_score (cv_results batch_result)
      in slice_to sorted_results top_n)"

section \<open>extractors/pdf\_extractor.py\<close>

text \<open>
  The file system is a map from paths to the size and readability of the file there
  (\<open>None\<close>: no such file). The library's extraction followed by \<open>_clean_text\<close> and
  \<open>_get_file_metadata\<close> is the parameter \<open>pipeline\<close>: \<open>Inl\<close> the text of the exception
  it raised, \<open>Inr\<close> the cleaned text and the metadata. \<open>start_time\<close> is the clock when
  the call begins, \<open>end_time\<close> the clock when it ends. The key \<open>text\<close> of the result is
  the field \<open>text_field\<close>.
\<close>

record file_stat =
  st_size :: nat
  st_readable :: bool

record 'm ExtractResult =
  success :: bool
  text_field :: pystr
  metadata :: "'m option"
  error :: "pystr option"
  extraction_time :: real

definition max_file_size :: nat where
  "max_file_size = 50 * 1024 * 1024"

definition endswith :: "pystr \<Rightarrow> pystr \<Rightarrow> bool" where
  "endswith s suffix =
     (length suffix \<le> length s \<and> drop (length s - length suffix) s = suffix)"

definition validate_file ::
    "(pystr \<Rightarrow> pystr) \<Rightarrow> (pystr \<Rightarrow> file_stat option) \<Rightarrow> pystr \<Rightarrow> bool" where
  "validate_file lower fs file_path =
     (case fs file_path of
        None \<Rightarrow> False
      | Some st \<Rightarrow>
          if \<not> endswith (lower file_path) (py ''.pdf'') then False
          else if st_size st > max_file_size then False
          else if \<not> st_readable st then False
          else True)"

definition extract_text ::
    "(pystr \<Rightarrow> pystr) \<Rightarrow> (pystr \<Rightarrow> file_stat option) \<Rightarrow> bool
       \<Rightarrow> (pystr \<Rightarrow> pystr + pystr \<times> 'm) \<Rightarrow> real \<Rightarrow> real \<Rightarrow> pystr \<Rightarrow> 'm ExtractResult" where
  "extract_text lower fs pdf_available pipeline start_time end_time file_path =
     (let result = \<lparr>success = False, text_field = [], metadata = None, error = None,
                     extraction_time = 0\<rparr>
      in if \<not> validate_file lower fs file_path
         then result\<lparr>error := Some (py ''Invalid PDF file'')\<rparr>
         else if \<not> pdf_available
         then result\<lparr>error := Some (py ''PDF extraction library not available'')\<rparr>
         else (case pipeline file_path of
                 Inr (cleaned_text, md) \<Rightarrow>
                   result\<lparr>success := True, text_field := cleaned_text,
                          metadata := Some md,
                          extraction_time := end_time - start_time\<rparr>
               | Inl e \<Rightarrow>
                   result\<lparr>error := Some (py ''PDF extraction failed: '' @ e),
                          extraction_time := end_time - start_time\<rparr>))"

section \<open>Specification\<close>

text \<open>
  \<open>occurs_at text pattern i\<close>: the pattern stands in the text at position \<open>i\<close>;
  \<open>match_positions\<close> lists these positions in increasing order.
\<close>

definition occurs_at :: "pystr \<Rightarrow> pystr \<Rightarrow> nat \<Rightarrow> bool" where
  "occurs_at text pattern i =
     (i + length pattern \<le> length text \<and> take (length pattern) (drop i text) = pattern)"

definition match_positions :: "pystr \<Rightarrow> pystr \<Rightarrow> nat list" where
  "match_positions text pattern = filter (occurs_at text pattern) [0..<length text + 1]"

text \<open>The hash of a window computed from scratch, by Horner's rule modulo the prime.\<close>

definition horner_hash :: "pystr \<Rightarrow> int" where
  "horner_hash w = foldl (\<lambda>acc c. (base * acc + ord c) mod prime) 0 w"

text \<open>
  \<open>is_border w k\<close>: the prefix of \<open>w\<close> of length \<open>k\<close> is a proper prefix of \<open>w\<close> and also
  a suffix of \<open>w\<close>. \<open>is_lps p i v\<close>: \<open>v\<close> is the length of the longest proper prefix of
  \<open>p[0..i]\<close> that is also a suffix of \<open>p[0..i]\<close>.
\<close>

definition is_border :: "pystr \<Rightarrow> nat \<Rightarrow> bool" where
  "is_border w k = (k < length w \<and> take k w = drop (length w - k) w)"

definition is_lps :: "pystr \<Rightarrow> nat \<Rightarrow> nat \<Rightarrow> bool" where
  "is_lps p i v =
     (is_border (take (i + 1) p) v \<and> (\<forall>b. is_border (take (i + 1) p) b \<longrightarrow> b \<le> v))"

text \<open>The three names that \<open>analyze_cv\<close> accepts.\<close>

definition known_algorithm :: "pystr \<Rightarrow> bool" where
  "known_algorithm algorithm =
     (algorithm = py ''Brute Force'' \<or> algorithm = py ''Rabin-Karp'' \<or> algorithm = py ''KMP'')"

text \<open>Results and a batch with given file names and scores, for the examples of the
  ranking.\<close>

definition example_cv :: "pystr \<Rightarrow> real \<Rightarrow> AnalysisResult" where
  "example_cv name score =
     \<lparr>cv_filename = name, job_description = [], algorithm_used = py ''KMP'',
      matched_keywords = [], missing_keywords = [], relevance_score = score,
      comparison_count = 0, total_keywords = 0\<rparr>"

definition example_batch :: "AnalysisResult list \<Rightarrow> BatchAnalysisResult" where
  "example_batch results =
     \<lparr>batch_job_description =
        \<lparr>job_id = 0, title = [], description = [], job_keywords = [], created_at = []\<rparr>,
      batch_algorithm_used = py ''KMP'', cv_results = results,
      average_relevance_score = average_relevance results,
      total_cvs_analyzed = length results\<rparr>"

section \<open>Loop invariants\<close>

text \<open>
  The same notions by index: \<open>bord p n k\<close> says that the prefix of \<open>p\<close> of length \<open>n\<close> has
  the proper border \<open>k\<close>, \<open>lps_at p k v\<close> that \<open>v\<close> is the longest one of the prefix of
  length \<open>k + 1\<close>.
\<close>

definition bord :: "pystr \<Rightarrow> nat \<Rightarrow> nat \<Rightarrow> bool" where
  "bord p n k = (k < n \<and> (\<forall>t<k. p ! t = p ! (n - k + t)))"

definition lps_at :: "pystr \<Rightarrow> nat \<Rightarrow> nat \<Rightarrow> bool" where
  "lps_at p k v = (bord p (k + 1) v \<and> (\<forall>b. bord p (k + 1) b \<longrightarrow> b \<le> v))"

text \<open>The invariant of the loop of \<open>_build_failure_function\<close>: the entries below \<open>i\<close>
  are final, \<open>len\<close> is a border of the prefix of length \<open>i\<close>, and no border of the prefix
  of length \<open>i + 1\<close> is longer than \<open>len + 1\<close>.\<close>

definition build_inv :: "pystr \<Rightarrow> nat \<Rightarrow> nat \<Rightarrow> nat list \<Rightarrow> bool" where
  "build_inv p i len lps =
     (1 \<le> i \<and> i \<le> length p \<and> len < i \<and> length lps = length p \<and>
      (\<forall>k<i. lps_at p k (lps ! k)) \<and>
      bord p i len \<and> (\<forall>b. bord p (i + 1) b \<longrightarrow> b \<le> len + 1))"

text \<open>The invariant of the matching loop of \<open>kmp_search\<close>: the first \<open>j\<close> characters of
  the pattern stand in the text before position \<open>i\<close>, and the matches found are the
  occurrences that start before \<open>i - j\<close>.\<close>

definition pre :: "pystr \<Rightarrow> pystr \<Rightarrow> nat \<Rightarrow> nat \<Rightarrow> bool" where
  "pre text pattern i j = (j \<le> i \<and> (\<forall>t<j. pattern ! t = text ! (i - j + t)))"

definition kmp_inv :: "pystr \<Rightarrow> pystr \<Rightarrow> nat \<Rightarrow> nat \<Rightarrow> nat list \<Rightarrow> bool" where
  "kmp_inv text pattern i j ms =
     (i \<le> length text \<and> j < length pattern \<and> pre text pattern i j \<and>
      ms = filter (occurs_at text pattern) [0..<i - j])"

section \<open>Evaluating doubles\<close>

lemma bits_numeral [simp]:
  "bits 0 = 0" "bits 1 = 1"
  "bits (numeral (Num.Bit0 k)) = Suc (bits (numeral k))"
  "bits (numeral (Num.Bit1 k)) = Suc (bits (numeral k))"
  by (subst bits.simps, simp)+

lemmas double_defs =
  float_truediv_def float_add_def float_mul_def float_of_int_def float_lt_def py_min_def
  lit_0_1_def lit_0_01_def lit_1_0_def round_ratio_def value_of_def

text \<open>
  The doubles of this model are the nearest ones: for positive \<open>p\<close> and \<open>q\<close> the result
  \<open>(m, w)\<close> of \<open>round_ratio p q s\<close> has a significand of 53 bits and lies within half a unit
  in the last place of the exact quotient, \<open>p / q * 2 powi s\<close>.
\<close>

lemma bits_bounds:
  "0 < n \<Longrightarrow> 2 ^ (bits n - 1) \<le> n \<and> n < 2 ^ bits n"
proof (induction n rule: bits.induct)
  case (1 n)
  show ?case
  proof (cases "n div 2 \<le> 0")
    case True
    with "1.prems" have "n = 1" by simp
    then show ?thesis by simp
  next
    case False
    then have pos: "0 < n div 2" by simp
    with "1.IH" "1.prems" have ih: "2 ^ (bits (n div 2) - 1) \<le> n div 2"
      "n div 2 < 2 ^ bits (n div 2)" by simp_all
    from pos have b: "bits (n div 2) \<noteq> 0" by (subst bits.simps) simp
    from "1.prems" have bn: "bits n = Suc (bits (n div 2))" by (subst bits.simps) simp
    from b obtain c where c: "bits (n div 2) = Suc c" by (cases "bits (n div 2)") auto
    from ih c have "2 ^ Suc c \<le> 2 * (n div 2)" by simp
    then have lo: "2 ^ Suc c \<le> n" by linarith
    from ih(2) have "n div 2 + 1 \<le> 2 ^ bits (n div 2)" by simp
    then have "2 * (n div 2) + 2 \<le> 2 ^ Suc (bits (n div 2))" by simp
    then have hi: "n < 2 ^ Suc (bits (n div 2))" by linarith
    from lo hi bn c show ?thesis by simp
  qed
qed


lemma value_of_powi: "value_of (m, e) = of_int m * 2 powi e"
  by (simp add: value_of_def power_int_def power_inverse field_simps)

lemma real_pow2_le: "(2::int) ^ k \<le> n \<Longrightarrow> (2::real) ^ k \<le> of_int n"
proof -
  assume "(2::int) ^ k \<le> n"
  then have "(of_int ((2::int) ^ k) :: real) \<le> of_int n" by (simp only: of_int_le_iff)
  then show ?thesis by simp
qed

lemma real_pow2_less: "n < (2::int) ^ k \<Longrightarrow> of_int n < (2::real) ^ k"
proof -
  assume "n < (2::int) ^ k"
  then have "(of_int n :: real) < of_int ((2::int) ^ k)" by (simp only: of_int_less_iff)
  then show ?thesis by simp
qed

lemma powi_test:
  fixes p q :: int
  assumes q: "0 < q"
  shows "(if 0 \<le> d then q * 2 ^ nat d \<le> p else q \<le> p * 2 ^ nat (- d)) \<longleftrightarrow>
         2 powi d \<le> (of_int p / of_int q :: real)"
proof -
  have Q: "0 < (of_int q :: real)" using q by simp
  show ?thesis
  proof (cases "0 \<le> d")
    case True
    have "q * 2 ^ nat d \<le> p \<longleftrightarrow> (of_int (q * 2 ^ nat d) :: real) \<le> of_int p"
      by (simp only: of_int_le_iff)
    also have "\<dots> \<longleftrightarrow> 2 ^ nat d * of_int q \<le> (of_int p :: real)"
      by (simp add: mult.commute)
    also have "\<dots> \<longleftrightarrow> 2 ^ nat d \<le> (of_int p / of_int q :: real)"
      using Q by (simp only: pos_le_divide_eq)
    finally show ?thesis using True by (simp add: power_int_def)
  next
    case False
    have "q \<le> p * 2 ^ nat (- d) \<longleftrightarrow> (of_int q :: real) \<le> of_int (p * 2 ^ nat (- d))"
      by (simp only: of_int_le_iff)
    also have "\<dots> \<longleftrightarrow> (of_int q :: real) \<le> of_int p * 2 ^ nat (- d)"
      by simp
    also have "\<dots> \<longleftrightarrow> (of_int q :: real) / 2 ^ nat (- d) \<le> of_int p"
      by (simp only: pos_divide_le_eq zero_less_power zero_less_numeral)
    also have "\<dots> \<longleftrightarrow> (1 / 2 ^ nat (- d)) * of_int q \<le> (of_int p :: real)"
      by simp
    also have "\<dots> \<longleftrightarrow> 1 / 2 ^ nat (- d) \<le> (of_int p / of_int q :: real)"
      using Q by (simp only: pos_le_divide_eq)
    finally show ?thesis using False
      by (simp add: power_int_def power_inverse field_simps)
  qed
qed


lemma bits_pos: "0 < n \<Longrightarrow> 0 < bits n"
  by (subst bits.simps) simp

lemma ratio_bounds:
  fixes p q :: int
  assumes p: "0 < p" and q: "0 < q"
  shows "2 powi (int (bits p) - int (bits q) - 1) < (of_int p / of_int q :: real)"
    and "(of_int p / of_int q :: real) < 2 powi (int (bits p) - int (bits q) + 1)"
proof -
  from bits_pos[OF p] obtain a where a: "bits p = Suc a" by (cases "bits p") auto
  from bits_pos[OF q] obtain b where b: "bits q = Suc b" by (cases "bits q") auto
  from bits_bounds[OF p] a have p1: "(2::int) ^ a \<le> p" and p2: "p < 2 ^ Suc a"
    by simp_all
  from bits_bounds[OF q] b have q1: "(2::int) ^ b \<le> q" and q2: "q < 2 ^ Suc b"
    by simp_all
  from p1 have P1: "(2::real) ^ a \<le> of_int p" by (rule real_pow2_le)
  from p2 have P2: "(of_int p :: real) < 2 ^ Suc a" by (rule real_pow2_less)
  from q1 have Q1: "(2::real) ^ b \<le> of_int q" by (rule real_pow2_le)
  from q2 have Q2: "(of_int q :: real) < 2 ^ Suc b" by (rule real_pow2_less)
  have Qpos: "0 < (of_int q :: real)" using q by simp
  have Ppos: "0 \<le> (of_int p :: real)" using p by simp
  have e1: "(2::real) powi (int (bits p) - int (bits q) - 1) = 2 ^ a / 2 ^ Suc b"
  proof -
    have eq: "int (bits p) - int (bits q) - 1 = int a - int (Suc b)" using a b by simp
    have "(2::real) powi (int a - int (Suc b)) = 2 powi int a / 2 powi int (Suc b)"
      by (rule power_int_diff) simp
    then show ?thesis unfolding eq by (simp only: power_int_of_nat)
  qed
  have e2: "(2::real) powi (int (bits p) - int (bits q) + 1) = 2 ^ Suc a / 2 ^ b"
  proof -
    have eq: "int (bits p) - int (bits q) + 1 = int (Suc a) - int b" using a b by simp
    have "(2::real) powi (int (Suc a) - int b) = 2 powi int (Suc a) / 2 powi int b"
      by (rule power_int_diff) simp
    then show ?thesis unfolding eq by (simp only: power_int_of_nat)
  qed
  have "(2::real) ^ a / 2 ^ Suc b < of_int p / of_int q"
    by (rule frac_less2[OF _ P1 Qpos Q2]) simp
  with e1 show "2 powi (int (bits p) - int (bits q) - 1) < (of_int p / of_int q :: real)"
    by simp
  have "(of_int p :: real) / of_int q < 2 ^ Suc a / 2 ^ b"
    by (rule frac_less[OF Ppos P2 _ Q1]) simp
  with e2 show "(of_int p / of_int q :: real) < 2 powi (int (bits p) - int (bits q) + 1)"
    by simp
qed


lemma scaled_ratio:
  fixes p q u :: int
  assumes q: "0 < q"
  defines "num \<equiv> (if 0 \<le> u then p else p * 2 ^ nat (- u))"
    and "den \<equiv> (if 0 \<le> u then q * 2 ^ nat u else q)"
  shows "0 < den" and "(of_int num / of_int den :: real) = of_int p / of_int q / 2 powi u"
proof -
  from q show "0 < den" by (simp add: den_def)
  show "(of_int num / of_int den :: real) = of_int p / of_int q / 2 powi u"
    by (cases "0 \<le> u") (simp_all add: num_def den_def power_int_def power_inverse field_simps)
qed

lemma round_half_even_near:
  fixes num den :: int
  assumes den: "0 < den"
  defines "m0 \<equiv> num div den" and "r \<equiv> num mod den"
  defines "m1 \<equiv> (if 2 * r < den then m0
                  else if den < 2 * r then m0 + 1
                  else if even m0 then m0 else m0 + 1)"
  shows "\<bar>of_int m1 - (of_int num / of_int den :: real)\<bar> \<le> 1 / 2"
    and "m0 \<le> m1" and "m1 \<le> m0 + 1"
proof -
  have D: "0 < (of_int den :: real)" using den by simp
  have r: "0 \<le> r" "r < den" using den by (simp_all add: r_def)
  have "num = m0 * den + r" by (simp add: m0_def r_def)
  then have "(of_int num :: real) = of_int m0 * of_int den + of_int r"
    by (metis of_int_add of_int_mult)
  then have frac: "(of_int num / of_int den :: real) = of_int m0 + of_int r / of_int den"
    using D by (simp add: field_simps)
  have R0: "0 \<le> (of_int r / of_int den :: real)" using r D by simp
  have R1: "(of_int r / of_int den :: real) < 1" using r D by simp
  show "m0 \<le> m1" "m1 \<le> m0 + 1" by (simp_all add: m1_def)
  consider (lo) "2 * r < den" | (hi) "den < 2 * r" | (tie) "2 * r = den" by linarith
  then show "\<bar>of_int m1 - (of_int num / of_int den :: real)\<bar> \<le> 1 / 2"
  proof cases
    case lo
    then have "(of_int (2 * r) :: real) < of_int den" by (simp only: of_int_less_iff)
    then have "(of_int r / of_int den :: real) < 1 / 2" using D by (simp add: field_simps)
    with lo R0 frac show ?thesis by (simp add: m1_def)
  next
    case hi
    then have "(of_int den :: real) < of_int (2 * r)" by (simp only: of_int_less_iff)
    then have "1 / 2 < (of_int r / of_int den :: real)" using D by (simp add: field_simps)
    with hi R1 frac show ?thesis by (simp add: m1_def)
  next
    case tie
    then have "(of_int (2 * r) :: real) = of_int den" by (simp only: of_int_eq_iff)
    then have "(of_int r / of_int den :: real) = 1 / 2" using D by (simp add: field_simps)
    with tie frac show ?thesis by (simp add: m1_def)
  qed
qed


lemma round_ratio_nearest:
  fixes p q s :: int
  assumes p: "0 < p" and q: "0 < q" and rr: "round_ratio p q s = (m, w)"
  shows "2 ^ 52 \<le> m" and "m \<le> 2 ^ 53"
    and "\<bar>value_of (m, w) - of_int p / of_int q * 2 powi s\<bar> \<le> 2 powi w / 2"
proof -
  define X :: real where "X = of_int p / of_int q"
  define d where "d = int (bits p) - int (bits q)"
  define e where "e = (if (if 0 \<le> d then q * 2 ^ nat d \<le> p else q \<le> p * 2 ^ nat (- d))
                       then d else d - 1)"
  define u where "u = e - 52"
  define num where "num = (if 0 \<le> u then p else p * 2 ^ nat (- u))"
  define den where "den = (if 0 \<le> u then q * 2 ^ nat u else q)"
  define m0 where "m0 = num div den"
  define r where "r = num mod den"
  define m1 where "m1 = (if 2 * r < den then m0
                         else if den < 2 * r then m0 + 1
                         else if even m0 then m0 else m0 + 1)"
  from p have np: "\<not> p \<le> 0" by simp
  have "round_ratio p q s = (m1, u + s)"
    unfolding round_ratio_def Let_def m1_def m0_def r_def num_def den_def u_def e_def d_def
    using np by (simp only: if_False)
  with rr have res: "m = m1" "w = u + s" by simp_all
  have E: "2 powi e \<le> X \<and> X < 2 powi (e + 1)"
  proof (cases "2 powi d \<le> X")
    case True
    with powi_test[where d = d and p = p and q = q, OF q] have "e = d" by (simp add: e_def X_def)
    with True ratio_bounds(2)[OF p q] show ?thesis by (simp add: X_def d_def)
  next
    case False
    with powi_test[where d = d and p = p and q = q, OF q] have "e = d - 1" by (simp add: e_def X_def)
    with False ratio_bounds(1)[OF p q] show ?thesis by (simp add: X_def d_def)
  qed
  from scaled_ratio(1)[where u = u and q = q, OF q] scaled_ratio(2)[where u = u and p = p and q = q, OF q]
  have denpos: "0 < den" and S: "(of_int num / of_int den :: real) = X / 2 powi u"
    by (simp_all add: num_def den_def X_def)
  have U: "0 < (2::real) powi u" by simp
  have e52: "(2::real) powi e = 2 powi u * 2 ^ 52"
  proof -
    have "(2::real) powi (u + 52) = 2 powi u * 2 powi 52" by (rule power_int_add) simp
    moreover have "e = u + 52" by (simp add: u_def)
    ultimately show ?thesis by (simp add: add.commute)
  qed
  have e53: "(2::real) powi (e + 1) = 2 powi u * 2 ^ 53"
  proof -
    have "(2::real) powi (u + 53) = 2 powi u * 2 powi 53" by (rule power_int_add) simp
    moreover have "e + 1 = u + 53" by (simp add: u_def)
    ultimately show ?thesis by (simp add: add.commute)
  qed
  from E e52 have "2 ^ 52 * 2 powi u \<le> X" by (simp add: mult.commute)
  then have B1: "2 ^ 52 \<le> (of_int num / of_int den :: real)"
    unfolding S using U by (simp only: pos_le_divide_eq)
  from E e53 have "X < 2 ^ 53 * 2 powi u" by (simp add: mult.commute)
  then have B2: "(of_int num / of_int den :: real) < 2 ^ 53"
    unfolding S using U by (simp only: pos_divide_less_eq)
  have fl: "m0 = \<lfloor>(of_int num / of_int den :: real)\<rfloor>"
    by (simp add: m0_def floor_divide_of_int_eq)
  from B1 have "(of_int ((2::int) ^ 52) :: real) \<le> of_int num / of_int den" by simp
  then have m0lo: "2 ^ 52 \<le> m0" unfolding fl by (simp only: le_floor_iff)
  from B2 have "(of_int num / of_int den :: real) < of_int ((2::int) ^ 53)" by simp
  then have m0hi: "m0 < 2 ^ 53" unfolding fl by (simp only: floor_less_iff)
  have near: "\<bar>of_int m1 - (of_int num / of_int den :: real)\<bar> \<le> 1 / 2"
    and m1lo: "m0 \<le> m1" and m1hi: "m1 \<le> m0 + 1"
    unfolding m1_def m0_def r_def by (rule round_half_even_near[OF denpos])+
  from m0lo m1lo res show "2 ^ 52 \<le> m" by simp
  from m0hi m1hi res show "m \<le> 2 ^ 53" by simp
  have W: "(2::real) powi w = 2 powi u * 2 powi s"
    unfolding res by (rule power_int_add) simp
  have Xs: "X = (of_int num / of_int den) * 2 powi u" unfolding S by simp
  have "value_of (m, w) - of_int p / of_int q * 2 powi s =
          (of_int m1 - of_int num / of_int den) * (2 powi u * 2 powi s)"
    unfolding value_of_powi W res(1) X_def[symmetric]
    by (subst Xs) (simp add: algebra_simps)
  then have "\<bar>value_of (m, w) - of_int p / of_int q * 2 powi s\<bar> =
          \<bar>of_int m1 - of_int num / of_int den\<bar> * (2 powi u * 2 powi s)"
    by (simp add: abs_mult)
  also have "\<dots> \<le> 1 / 2 * (2 powi u * 2 powi s)"
    using near by (intro mult_right_mono) simp_all
  finally show "\<bar>value_of (m, w) - of_int p / of_int q * 2 powi s\<bar> \<le> 2 powi w / 2"
    unfolding W by simp
qed

text \<open>
  Eleven keywords matched out of a hundred: \<open>0.11 + min(0.1, 11 * 0.01)\<close> is
  \<open>0.21000000000000002\<close> in double precision, the double \<open>3783023686991217 / 2 ^ 54\<close>.
\<close>

lemma score_11_of_100:
  "calculate_relevance_score (replicate 11 []) (replicate 100 []) = 3783023686991217 / 2 ^ 54"
  by (simp add: calculate_relevance_score_def double_defs Let_def)

section \<open>Borders and the failure function\<close>

lemma is_border_nth:
  assumes "n \<le> length p"
  shows "is_border (take n p) k \<longleftrightarrow> k < n \<and> (\<forall>t<k. p ! t = p ! (n - k + t))"
  using assms by (auto simp: is_border_def list_eq_iff_nth_eq min_def)

lemma occurs_at_nth:
  "occurs_at text pattern s \<longleftrightarrow>
     s + length pattern \<le> length text \<and> (\<forall>t<length pattern. text ! (s + t) = pattern ! t)"
  by (auto simp: occurs_at_def list_eq_iff_nth_eq)

lemma bord_zero: "0 < n \<Longrightarrow> bord p n 0"
  by (simp add: bord_def)

lemma bord_Suc:
  "bord p (Suc n) (Suc b) \<longleftrightarrow> bord p n b \<and> p ! b = p ! n"
  by (auto simp: bord_def less_Suc_eq)

lemma bord_nested:
  assumes "bord p n a" "b < a"
  shows "bord p n b \<longleftrightarrow> bord p a b"
proof -
  have "p ! (a - b + t) = p ! (n - b + t)" if "t < b" for t
  proof -
    from that assms have "a - b + t < a" by simp
    with assms(1) have "p ! (a - b + t) = p ! (n - a + (a - b + t))"
      by (simp add: bord_def)
    moreover from assms that have "n - a + (a - b + t) = n - b + t"
      by (simp add: bord_def)
    ultimately show ?thesis by simp
  qed
  with assms show ?thesis by (auto simp: bord_def)
qed

lemma is_lps_iff: "k < length p \<Longrightarrow> is_lps p k v \<longleftrightarrow> lps_at p k v"
  by (simp add: is_lps_def lps_at_def is_border_nth bord_def)

lemma bord_Suc_bound:
  assumes "\<forall>b. bord p n b \<longrightarrow> b \<le> v" "bord p (Suc n) c"
  shows "c \<le> Suc v"
proof (cases c)
  case 0
  then show ?thesis by simp
next
  case (Suc c')
  with assms show ?thesis by (simp add: bord_Suc)
qed

lemma build_inv_init: "0 < length p \<Longrightarrow> build_inv p 1 0 (replicate (length p) 0)"
  by (cases p) (auto simp: build_inv_def lps_at_def bord_def)

lemma build_inv_hit:
  assumes inv: "build_inv p i len lps" and i: "i < length p" and eq: "p ! i = p ! len"
  shows "build_inv p (i + 1) (len + 1) (lps[i := len + 1])"
proof -
  from inv have b: "bord p i len" and mx: "\<forall>b. bord p (i + 1) b \<longrightarrow> b \<le> len + 1"
    and old: "\<forall>k<i. lps_at p k (lps ! k)" and ll: "length lps = length p" and li: "len < i"
    by (simp_all add: build_inv_def)
  from b eq have nb: "bord p (i + 1) (len + 1)" by (simp add: bord_Suc)
  with mx have at: "lps_at p i (len + 1)" by (simp add: lps_at_def)
  have "\<forall>k<i + 1. lps_at p k (lps[i := len + 1] ! k)"
    using old at ll i by (auto simp: less_Suc_eq nth_list_update)
  moreover have "\<forall>b. bord p (i + 1 + 1) b \<longrightarrow> b \<le> len + 1 + 1"
    using bord_Suc_bound[of p "i + 1" "len + 1"] mx by simp
  ultimately show ?thesis using nb ll li i by (simp add: build_inv_def)
qed

lemma build_inv_fallback:
  assumes inv: "build_inv p i len lps" and i: "i < length p" and ne: "p ! i \<noteq> p ! len"
    and len: "len \<noteq> 0"
  shows "build_inv p i (lps ! (len - 1)) lps \<and> lps ! (len - 1) < len"
proof -
  from inv have b: "bord p i len" and mx: "\<forall>b. bord p (i + 1) b \<longrightarrow> b \<le> len + 1"
    and old: "\<forall>k<i. lps_at p k (lps ! k)" and ll: "length lps = length p" and li: "len < i"
    and i1: "1 \<le> i" "i \<le> length p"
    by (simp_all add: build_inv_def)
  let ?l = "lps ! (len - 1)"
  from old li len have at: "lps_at p (len - 1) ?l" by simp
  with len have bl: "bord p len ?l" and ml: "\<forall>c. bord p len c \<longrightarrow> c \<le> ?l"
    by (simp_all add: lps_at_def)
  from bl have lt: "?l < len" by (simp add: bord_def)
  with b bl have b': "bord p i ?l" by (simp add: bord_nested)
  have "c \<le> ?l + 1" if c: "bord p (i + 1) c" for c
  proof (cases c)
    case 0
    then show ?thesis by simp
  next
    case (Suc c')
    with c have c1: "bord p i c'" and c2: "p ! c' = p ! i" by (simp_all add: bord_Suc)
    from c mx Suc have "c' \<le> len" by auto
    with c2 ne have "c' < len" by (cases "c' = len") auto
    with b c1 have "bord p len c'" by (simp add: bord_nested)
    with ml Suc show ?thesis by simp
  qed
  with b' lt li ll old i1 show ?thesis by (simp add: build_inv_def)
qed

lemma build_inv_zero:
  assumes inv: "build_inv p i 0 lps" and i: "i < length p" and ne: "p ! i \<noteq> p ! 0"
  shows "build_inv p (i + 1) 0 (lps[i := 0])"
proof -
  from inv have mx: "\<forall>b. bord p (i + 1) b \<longrightarrow> b \<le> 1"
    and old: "\<forall>k<i. lps_at p k (lps ! k)" and ll: "length lps = length p"
    by (simp_all add: build_inv_def)
  have z: "c = 0" if c: "bord p (i + 1) c" for c
  proof (cases c)
    case 0
    then show ?thesis .
  next
    case (Suc c')
    with c mx have "c' = 0" by auto
    with c Suc ne show ?thesis by (simp add: bord_Suc)
  qed
  then have at: "lps_at p i 0" by (auto simp: lps_at_def bord_def)
  have "\<forall>k<i + 1. lps_at p k (lps[i := 0] ! k)"
    using old at ll i by (auto simp: less_Suc_eq nth_list_update)
  moreover have "\<forall>b. bord p (i + 1 + 1) b \<longrightarrow> b \<le> 0 + 1"
    using bord_Suc_bound[of p "i + 1" 0] z by auto
  ultimately show ?thesis using ll i by (simp add: build_inv_def bord_def)
qed

lemma build_loop_total:
  "build_inv p i len lps \<Longrightarrow>
     \<exists>r. build_loop p i len lps = Some (Inr r) \<and> length r = length p \<and>
         (\<forall>k<length p. lps_at p k (r ! k))"
proof (induction "2 * (length p - i) + len" arbitrary: i len lps rule: less_induct)
  case less
  note inv = less.prems
  from inv have ll: "length lps = length p" and li: "len < i" and im: "i \<le> length p"
    and old: "\<forall>k<i. lps_at p k (lps ! k)"
    by (simp_all add: build_inv_def)
  show ?case
  proof (cases "i < length p")
    case False
    with im have "i = length p" by simp
    with old ll False show ?thesis by (subst build_loop.simps) simp
  next
    case i: True
    show ?thesis
    proof (cases "p ! i = p ! len")
      case True
      from build_inv_hit[OF inv i True]
      have "\<exists>r. build_loop p (i + 1) (len + 1) (lps[i := len + 1]) = Some (Inr r) \<and>
              length r = length p \<and> (\<forall>k<length p. lps_at p k (r ! k))"
        using i by (intro less.hyps) auto
      with True i li ll show ?thesis by (subst build_loop.simps) simp
    next
      case ne: False
      show ?thesis
      proof (cases "len = 0")
        case True
        with inv ne have "build_inv p (i + 1) 0 (lps[i := 0])"
          using build_inv_zero[of p i lps] i by simp
        then have "\<exists>r. build_loop p (i + 1) 0 (lps[i := 0]) = Some (Inr r) \<and>
              length r = length p \<and> (\<forall>k<length p. lps_at p k (r ! k))"
          using i True by (intro less.hyps) auto
        moreover from i have "p \<noteq> []" by auto
        ultimately show ?thesis using True ne i li ll by (subst build_loop.simps) simp
      next
        case False
        from build_inv_fallback[OF inv i ne False]
        have "\<exists>r. build_loop p i (lps ! (len - 1)) lps = Some (Inr r) \<and>
              length r = length p \<and> (\<forall>k<length p. lps_at p k (r ! k))"
          by (intro less.hyps) auto
        with False ne i li ll show ?thesis by (subst build_loop.simps) simp
      qed
    qed
  qed
qed

lemma build_failure_function_lps:
  "\<exists>lps. build_failure_function p = Some (Inr lps) \<and> length lps = length p \<and>
       (\<forall>k<length p. lps_at p k (lps ! k))"
proof (cases "p = []")
  case True
  then show ?thesis
    by (simp add: build_failure_function_def build_loop.simps)
next
  case False
  then show ?thesis
    unfolding build_failure_function_def
    by (intro build_loop_total build_inv_init) simp
qed

section \<open>The matching loop of KMP\<close>

lemma filter_upt_skip:
  assumes "a \<le> b" "\<forall>s. a \<le> s \<and> s < b \<longrightarrow> \<not> P s"
  shows "filter P [0..<b] = filter P [0..<a]"
proof -
  from assms(1) have "[0..<b] = [0..<a] @ [a..<b]"
    by (metis le_add_diff_inverse upt_add_eq_append zero_le)
  moreover from assms(2) have "filter P [a..<b] = []" by (auto simp: filter_empty_conv)
  ultimately show ?thesis by simp
qed

lemma filter_upt_hit:
  assumes "a < b" "P a" "\<forall>s. a < s \<and> s < b \<longrightarrow> \<not> P s"
  shows "filter P [0..<b] = filter P [0..<a] @ [a]"
proof -
  from assms have "filter P [0..<b] = filter P [0..<Suc a]"
    by (intro filter_upt_skip) auto
  with assms(2) show ?thesis by simp
qed

lemma pre_step: "pre text pattern i j \<Longrightarrow> text ! i = pattern ! j \<Longrightarrow> pre text pattern (i + 1) (j + 1)"
  by (auto simp: pre_def less_Suc_eq)

lemma pre_occurs:
  assumes "pre text pattern i (length pattern)" "i \<le> length text"
  shows "occurs_at text pattern (i - length pattern)"
  using assms by (auto simp: pre_def occurs_at_nth)

lemma mismatch_no_occ:
  assumes "pre text pattern i j" "j < length pattern" "text ! i \<noteq> pattern ! j"
  shows "\<not> occurs_at text pattern (i - j)"
  using assms by (auto simp: pre_def occurs_at_nth)

lemma pre_fallback:
  assumes p: "pre text pattern i j" and j: "0 < j" "j \<le> length pattern"
    and at: "lps_at pattern (j - 1) l"
  shows "pre text pattern i l" and "l < j"
    and "\<forall>s. i - j < s \<and> s < i - l \<longrightarrow> \<not> occurs_at text pattern s"
proof -
  from at j have b: "bord pattern j l" and mx: "\<forall>c. bord pattern j c \<longrightarrow> c \<le> l"
    by (simp_all add: lps_at_def)
  from b show lj: "l < j" by (simp add: bord_def)
  from p have ji: "j \<le> i" and eq: "\<forall>t<j. pattern ! t = text ! (i - j + t)"
    by (simp_all add: pre_def)
  have "pattern ! t = text ! (i - l + t)" if "t < l" for t
  proof -
    from b that have "pattern ! t = pattern ! (j - l + t)" by (simp add: bord_def)
    also from eq that lj have "\<dots> = text ! (i - j + (j - l + t))" by simp
    also from ji lj have "i - j + (j - l + t) = i - l + t" by simp
    finally show ?thesis .
  qed
  with lj ji show "pre text pattern i l" by (simp add: pre_def)
  show "\<forall>s. i - j < s \<and> s < i - l \<longrightarrow> \<not> occurs_at text pattern s"
  proof (intro allI impI notI)
    fix s assume s: "i - j < s \<and> s < i - l" and occ: "occurs_at text pattern s"
    define c where "c = i - s"
    from s ji have c: "l < c" "c < j" "s = i - c" "c \<le> i" by (auto simp: c_def)
    have "pattern ! t = pattern ! (j - c + t)" if "t < c" for t
    proof -
      from occ that c j have "pattern ! t = text ! (s + t)" by (simp add: occurs_at_nth)
      also from c ji that have "s + t = i - j + (j - c + t)" by simp
      also from eq that c have "text ! (i - j + (j - c + t)) = pattern ! (j - c + t)" by simp
      finally show ?thesis .
    qed
    with c have "bord pattern j c" by (simp add: bord_def)
    with mx c show False by auto
  qed
qed

lemma kmp_inv_full:
  assumes inv: "kmp_inv text pattern i j ms" and i: "i < length text"
    and hit: "text ! i = pattern ! j" and full: "j + 1 = length pattern"
    and at: "lps_at pattern j l"
  shows "kmp_inv text pattern (i + 1) l (ms @ [i - j])"
proof -
  from inv have p: "pre text pattern i j"
    and ms: "ms = filter (occurs_at text pattern) [0..<i - j]"
    by (simp_all add: kmp_inv_def)
  from p hit have p1: "pre text pattern (i + 1) (j + 1)" by (rule pre_step)
  from pre_fallback[OF p1, of l] at full
  have pl: "pre text pattern (i + 1) l" and lj: "l < j + 1"
    and no: "\<forall>s. i - j < s \<and> s < i + 1 - l \<longrightarrow> \<not> occurs_at text pattern s"
    by simp_all
  from p have ji: "j \<le> i" by (simp add: pre_def)
  from full have m: "length pattern = j + 1" by simp
  from pre_occurs[of "text" pattern "i + 1"] p1 i
  have occ: "occurs_at text pattern (i - j)" by (simp add: m)
  from lj ji have "i - j < i + 1 - l" by simp
  from filter_upt_hit[OF this, of "occurs_at text pattern"] occ no ms
  have "ms @ [i - j] = filter (occurs_at text pattern) [0..<i + 1 - l]" by simp
  with pl lj full i show ?thesis by (simp add: kmp_inv_def)
qed

lemma kmp_inv_hit_mis:
  assumes inv: "kmp_inv text pattern i j ms" and i: "i + 1 < length text"
    and hit: "text ! i = pattern ! j" and j: "j + 1 < length pattern"
    and mis: "text ! (i + 1) \<noteq> pattern ! (j + 1)"
    and at: "lps_at pattern j l"
  shows "kmp_inv text pattern (i + 1) l ms"
proof -
  from inv have p: "pre text pattern i j"
    and ms: "ms = filter (occurs_at text pattern) [0..<i - j]"
    by (simp_all add: kmp_inv_def)
  from p hit have p1: "pre text pattern (i + 1) (j + 1)" by (rule pre_step)
  from pre_fallback[OF p1, of l] at j
  have pl: "pre text pattern (i + 1) l" and lj: "l < j + 1"
    and no: "\<forall>s. i - j < s \<and> s < i + 1 - l \<longrightarrow> \<not> occurs_at text pattern s"
    by simp_all
  from p have ji: "j \<le> i" by (simp add: pre_def)
  from mismatch_no_occ[OF p1 j mis] have "\<not> occurs_at text pattern (i - j)" by simp
  with no have "\<forall>s. i - j \<le> s \<and> s < i + 1 - l \<longrightarrow> \<not> occurs_at text pattern s"
    by (metis le_neq_implies_less)
  moreover from lj ji have "i - j \<le> i + 1 - l" by simp
  ultimately have "filter (occurs_at text pattern) [0..<i + 1 - l] = ms"
    using ms by (simp add: filter_upt_skip)
  with pl lj j i show ?thesis by (simp add: kmp_inv_def)
qed

lemma kmp_inv_hit:
  assumes inv: "kmp_inv text pattern i j ms" and i: "i < length text"
    and hit: "text ! i = pattern ! j" and j: "j + 1 < length pattern"
  shows "kmp_inv text pattern (i + 1) (j + 1) ms"
proof -
  from inv have p: "pre text pattern i j"
    and ms: "ms = filter (occurs_at text pattern) [0..<i - j]"
    by (simp_all add: kmp_inv_def)
  from p hit have "pre text pattern (i + 1) (j + 1)" by (rule pre_step)
  with ms i j show ?thesis by (simp add: kmp_inv_def)
qed

lemma kmp_inv_miss:
  assumes inv: "kmp_inv text pattern i j ms"
    and mis: "text ! i \<noteq> pattern ! j" and j: "j \<noteq> 0"
    and at: "lps_at pattern (j - 1) l"
  shows "kmp_inv text pattern i l ms" and "l < j"
proof -
  from inv have p: "pre text pattern i j" and jm: "j < length pattern"
    and il: "i \<le> length text"
    and ms: "ms = filter (occurs_at text pattern) [0..<i - j]"
    by (simp_all add: kmp_inv_def)
  from pre_fallback[OF p, of l] at j jm
  have pl: "pre text pattern i l" and lj: "l < j"
    and no: "\<forall>s. i - j < s \<and> s < i - l \<longrightarrow> \<not> occurs_at text pattern s"
    by simp_all
  from lj show "l < j" .
  from mismatch_no_occ[OF p jm mis] no
  have "\<forall>s. i - j \<le> s \<and> s < i - l \<longrightarrow> \<not> occurs_at text pattern s"
    by (metis le_neq_implies_less)
  moreover from lj have "i - j \<le> i - l" by simp
  ultimately have "filter (occurs_at text pattern) [0..<i - l] = ms"
    using ms by (simp add: filter_upt_skip)
  with pl lj jm il show "kmp_inv text pattern i l ms" by (simp add: kmp_inv_def)
qed

lemma kmp_inv_miss0:
  assumes inv: "kmp_inv text pattern i 0 ms" and i: "i < length text"
    and mis: "text ! i \<noteq> pattern ! 0"
  shows "kmp_inv text pattern (i + 1) 0 ms"
proof -
  from inv have p: "pre text pattern i 0" and jm: "0 < length pattern"
    and ms: "ms = filter (occurs_at text pattern) [0..<i]"
    by (simp_all add: kmp_inv_def)
  from mismatch_no_occ[OF p jm mis] have "\<not> occurs_at text pattern i" by simp
  with ms jm i show ?thesis by (simp add: kmp_inv_def pre_def)
qed

lemma kmp_inv_exit:
  assumes inv: "kmp_inv text pattern (length text) j ms"
  shows "ms = match_positions text pattern"
proof -
  from inv have jm: "j < length pattern"
    and ms: "ms = filter (occurs_at text pattern) [0..<length text - j]"
    by (simp_all add: kmp_inv_def)
  from jm have "\<forall>s. length text - j \<le> s \<and> s < length text + 1 \<longrightarrow> \<not> occurs_at text pattern s"
    by (auto simp: occurs_at_def)
  then have "filter (occurs_at text pattern) [0..<length text + 1] = ms"
    using ms by (simp add: filter_upt_skip)
  then show ?thesis by (simp add: match_positions_def)
qed

lemma kmp_loop_total:
  assumes ll: "length lps = length pattern"
    and lps: "\<forall>k<length pattern. lps_at pattern k (lps ! k)"
  shows "kmp_inv text pattern i j ms \<Longrightarrow>
     \<exists>c. kmp_loop text pattern lps i j ms cnt = Some (Inr (match_positions text pattern, c))"
proof (induction "2 * (length text - i) + j" arbitrary: i j ms cnt rule: less_induct)
  case less
  note inv = less.prems
  from inv have il: "i \<le> length text" and jm: "j < length pattern"
    by (simp_all add: kmp_inv_def)
  show ?case
  proof (cases "i < length text")
    case False
    with il have "i = length text" by simp
    with inv kmp_inv_exit[of "text" pattern j ms] show ?thesis
      by (subst kmp_loop.simps) simp
  next
    case i: True
    show ?thesis
    proof (cases "text ! i = pattern ! j")
      case hit: True
      show ?thesis
      proof (cases "j + 1 = length pattern")
        case full: True
        from lps jm have at: "lps_at pattern j (lps ! j)" by simp
        then have "lps ! j < j + 1" by (simp add: lps_at_def bord_def)
        with kmp_inv_full[OF inv i hit full at] i
        have "\<exists>c. kmp_loop text pattern lps (i + 1) (lps ! j) (ms @ [i - j]) (cnt + 1) =
                Some (Inr (match_positions text pattern, c))"
          by (intro less.hyps) auto
        moreover from full have "length pattern = Suc j" by simp
        ultimately show ?thesis using i hit ll by (subst kmp_loop.simps) (simp add: Let_def)
      next
        case nf: False
        with jm have j1: "j + 1 < length pattern" by simp
        show ?thesis
        proof (cases "i + 1 < length text \<and> text ! (i + 1) \<noteq> pattern ! (j + 1)")
          case True
          from lps jm have at: "lps_at pattern j (lps ! j)" by simp
          then have "lps ! j < j + 1" by (simp add: lps_at_def bord_def)
          with kmp_inv_hit_mis[OF inv _ hit j1 _ at] True
          have "\<exists>c. kmp_loop text pattern lps (i + 1) (lps ! j) ms (cnt + 1 + 1) =
                  Some (Inr (match_positions text pattern, c))"
            by (intro less.hyps) auto
          with i jm hit nf ll True show ?thesis by (subst kmp_loop.simps) simp
        next
          case False
          from kmp_inv_hit[OF inv i hit j1] i
          have "\<exists>c. kmp_loop text pattern lps (i + 1) (j + 1) ms (cnt + 1) =
                  Some (Inr (match_positions text pattern, c))"
            by (intro less.hyps) auto
          with i jm hit nf ll False show ?thesis by (subst kmp_loop.simps) auto
        qed
      qed
    next
      case mis: False
      show ?thesis
      proof (cases "j = 0")
        case True
        with kmp_inv_miss0[of "text" pattern i ms] inv i mis
        have "kmp_inv text pattern (i + 1) 0 ms" by simp
        then have "\<exists>c. kmp_loop text pattern lps (i + 1) 0 ms (cnt + 1) =
                  Some (Inr (match_positions text pattern, c))"
          using i True by (intro less.hyps) auto
        with i jm mis True show ?thesis by (subst kmp_loop.simps) simp
      next
        case False
        from lps jm False have at: "lps_at pattern (j - 1) (lps ! (j - 1))" by simp
        from kmp_inv_miss[OF inv mis False at]
        have "\<exists>c. kmp_loop text pattern lps i (lps ! (j - 1)) ms (cnt + 1) =
                  Some (Inr (match_positions text pattern, c))"
          by (intro less.hyps) auto
        with i jm mis False ll show ?thesis by (subst kmp_loop.simps) simp
      qed
    qed
  qed
qed

section \<open>Brute Force\<close>

lemma compare_while_spec:
  "compare_while tx pat i j c = (j', c') \<Longrightarrow> j \<le> length pat \<Longrightarrow>
     j \<le> j' \<and> j' \<le> length pat \<and> c' = c + (j' - j) \<and>
     (\<forall>t. j \<le> t \<and> t < j' \<longrightarrow> tx ! (i + t) = pat ! t) \<and>
     (j' < length pat \<longrightarrow> tx ! (i + j') \<noteq> pat ! j')"
proof (induction tx pat i j c rule: compare_while.induct)
  case (1 tx pat i j cnt)
  show ?case
  proof (cases "j < length pat \<and> tx ! (i + j) = pat ! j")
    case True
    with "1.prems" have "compare_while tx pat i (j + 1) (cnt + 1) = (j', c')"
      by (subst (asm) compare_while.simps) simp
    with True have ih: "j + 1 \<le> j' \<and> j' \<le> length pat \<and> c' = cnt + 1 + (j' - (j + 1)) \<and>
        (\<forall>t. j + 1 \<le> t \<and> t < j' \<longrightarrow> tx ! (i + t) = pat ! t) \<and>
        (j' < length pat \<longrightarrow> tx ! (i + j') \<noteq> pat ! j')"
      by (intro "1.IH") auto
    have "tx ! (i + t) = pat ! t" if "j \<le> t" "t < j'" for t
      using that ih True by (cases "t = j") auto
    with ih show ?thesis by auto
  next
    case False
    with "1.prems" have "j' = j" "c' = cnt"
      by (subst (asm) compare_while.simps, simp)+
    with False "1.prems" show ?thesis by auto
  qed
qed

lemma compare_while_occurs:
  assumes "compare_while tx pat i 0 c = (j', c')" "i + length pat \<le> length tx"
  shows "j' = length pat \<longleftrightarrow> occurs_at tx pat i" and "j' \<le> length pat"
proof -
  from compare_while_spec[OF assms(1)]
  have le: "j' \<le> length pat" and eq: "\<forall>t<j'. tx ! (i + t) = pat ! t"
    and ne: "j' < length pat \<longrightarrow> tx ! (i + j') \<noteq> pat ! j'"
    by simp_all
  from le show "j' \<le> length pat" .
  show "j' = length pat \<longleftrightarrow> occurs_at tx pat i"
  proof
    assume "j' = length pat"
    with eq assms(2) show "occurs_at tx pat i" by (simp add: occurs_at_nth)
  next
    assume "occurs_at tx pat i"
    then have "\<forall>t<length pat. tx ! (i + t) = pat ! t" by (simp add: occurs_at_nth)
    with ne have "\<not> j' < length pat" by auto
    with le show "j' = length pat" by simp
  qed
qed

lemma bf_step_fst:
  assumes "i + length pattern \<le> length text"
  shows "fst (bf_step text pattern i (ms, c)) =
           (if occurs_at text pattern i then ms @ [i] else ms)"
proof -
  obtain j' c' where cw: "compare_while text pattern i 0 c = (j', c')" by force
  from compare_while_occurs[OF cw assms] cw show ?thesis
    by (simp add: bf_step_def Let_def)
qed

lemma bf_fold_fst:
  "k + length pattern \<le> length text + 1 \<Longrightarrow>
     fst (fold (bf_step text pattern) [0..<k] (ms, c)) =
       ms @ filter (occurs_at text pattern) [0..<k]"
proof (induction k)
  case 0
  then show ?case by simp
next
  case (Suc k)
  obtain ms' c' where st: "fold (bf_step text pattern) [0..<k] (ms, c) = (ms', c')" by force
  with Suc have "ms' = ms @ filter (occurs_at text pattern) [0..<k]" by simp
  with st Suc.prems show ?case by (simp add: bf_step_fst)
qed

lemma match_positions_short:
  "length text < length pattern \<Longrightarrow> match_positions text pattern = []"
  by (auto simp: match_positions_def occurs_at_def filter_empty_conv)

lemma match_positions_upt:
  assumes "length pattern \<le> length text"
  shows "match_positions text pattern =
     filter (occurs_at text pattern) [0..<length text - length pattern + 1]"
proof -
  have "\<forall>s. length text - length pattern + 1 \<le> s \<and> s < length text + 1 \<longrightarrow>
     \<not> occurs_at text pattern s"
    by (auto simp: occurs_at_def)
  with assms show ?thesis
    unfolding match_positions_def by (intro filter_upt_skip) auto
qed

lemma brute_force_matches:
  "matches (brute_force_search lower tx pat cs) =
     match_positions (if \<not> cs then lower tx else tx)
                     (if \<not> cs then lower pat else pat)"
proof -
  define t where "t = (if \<not> cs then lower tx else tx)"
  define p where "p = (if \<not> cs then lower pat else pat)"
  show ?thesis
  proof (cases "length p > length t")
    case True
    then show ?thesis
      by (simp add: brute_force_search_def Let_def match_positions_short t_def p_def)
  next
    case False
    obtain ms c where f: "fold (bf_step t p) [0..<length t - length p + 1] ([], 0) = (ms, c)"
      by force
    with False bf_fold_fst[of "length t - length p + 1" p t "[]" 0]
    have "ms = match_positions t p" by (simp add: match_positions_upt)
    with f False show ?thesis
      by (simp add: brute_force_search_def Let_def t_def p_def)
  qed
qed

section \<open>The rolling hash of Rabin-Karp\<close>

lemma horner_snoc: "horner_hash (w @ [c]) = (base * horner_hash w + ord c) mod prime"
  by (simp add: horner_hash_def)

lemma horner_range: "0 \<le> horner_hash w \<and> horner_hash w < prime"
  by (induction w rule: rev_induct) (simp_all add: horner_hash_def prime_def)

lemma horner_cons:
  "horner_hash (c # w) = (ord c * base ^ length w + horner_hash w) mod prime"
proof (induction w rule: rev_induct)
  case Nil
  then show ?case by (simp add: horner_hash_def base_def)
next
  case (snoc d w)
  have "horner_hash (c # w @ [d]) = (base * horner_hash (c # w) + ord d) mod prime"
    using horner_snoc[of "c # w" d] by simp
  also have "\<dots> = (base * (ord c * base ^ length w + horner_hash w) + ord d) mod prime"
    unfolding snoc.IH by (metis mod_add_left_eq mod_mult_right_eq)
  also have "\<dots> = (ord c * base ^ length (w @ [d]) + (base * horner_hash w + ord d)) mod prime"
    by (simp add: algebra_simps)
  also have "\<dots> = (ord c * base ^ length (w @ [d]) + horner_hash (w @ [d])) mod prime"
    unfolding horner_snoc by (simp add: mod_simps)
  finally show ?case .
qed

lemma rk_h_fold: "fold (\<lambda>i h. (h * base) mod prime) [0..<k] 1 = base ^ k mod prime"
  by (induction k) (simp_all add: mod_simps mult.commute prime_def)

lemma rk_h_eq: "rk_h m = base ^ (m - 1) mod prime"
  by (simp add: rk_h_def rk_h_fold)

lemma rk_init_fold:
  "k \<le> length pat \<Longrightarrow> k \<le> length tx \<Longrightarrow>
     fold (\<lambda>i (pattern_hash, text_hash).
             ((base * pattern_hash + ord (pat ! i)) mod prime,
              (base * text_hash + ord (tx ! i)) mod prime))
          [0..<k] (0, 0) = (horner_hash (take k pat), horner_hash (take k tx))"
proof (induction k)
  case 0
  then show ?case by (simp add: horner_hash_def)
next
  case (Suc k)
  then show ?case by (simp add: take_Suc_conv_app_nth horner_snoc)
qed

lemma rk_init_eq:
  "length pat \<le> length tx \<Longrightarrow>
     rk_init tx pat = (horner_hash pat, horner_hash (take (length pat) tx))"
  using rk_init_fold[of "length pat" pat tx] by (simp add: rk_init_def)

lemma rolling_hash:
  assumes "horner_hash (c # u) = th"
  shows "(base * (th - ord c * (base ^ length u mod prime)) + ord d) mod prime
           = horner_hash (u @ [d])"
proof -
  have "(th - ord c * (base ^ length u mod prime)) mod prime
          = ((ord c * base ^ length u + horner_hash u) - ord c * base ^ length u) mod prime"
    unfolding assms[symmetric] horner_cons
    by (intro mod_diff_cong) (simp_all add: mod_simps)
  then have "(th - ord c * (base ^ length u mod prime)) mod prime = horner_hash u mod prime"
    by simp
  then have "(base * (th - ord c * (base ^ length u mod prime)) + ord d) mod prime
          = (base * horner_hash u + ord d) mod prime"
    by (metis mod_add_cong mod_mult_cong)
  then show ?thesis by (simp add: horner_snoc)
qed

lemma window_cons:
  assumes "0 < m" "k + m \<le> length tx"
  shows "take m (drop k tx) = tx ! k # take (m - 1) (drop (k + 1) tx)"
proof -
  from assms have "drop k tx = tx ! k # drop (Suc k) tx"
    by (simp add: Cons_nth_drop_Suc)
  with assms show ?thesis by (cases m) simp_all
qed

lemma window_snoc:
  assumes "0 < m" "k + m < length tx"
  shows "take m (drop (k + 1) tx) = take (m - 1) (drop (k + 1) tx) @ [tx ! (k + m)]"
proof -
  from assms have "take (Suc (m - 1)) (drop (k + 1) tx)
      = take (m - 1) (drop (k + 1) tx) @ [drop (k + 1) tx ! (m - 1)]"
    by (intro take_Suc_conv_app_nth) simp
  with assms show ?thesis by simp
qed

lemma rolling_window:
  assumes m: "0 < m" and k: "k + m < length tx"
    and th: "th = horner_hash (take m (drop k tx))"
  shows "(base * (th - ord (tx ! k) * rk_h m) + ord (tx ! (k + m))) mod prime
           = horner_hash (take m (drop (k + 1) tx))"
proof -
  let ?u = "take (m - 1) (drop (k + 1) tx)"
  from m k have len: "length ?u = m - 1" by simp
  from m k th have "horner_hash (tx ! k # ?u) = th" by (simp add: window_cons)
  from rolling_hash[OF this, of "tx ! (k + m)"] len
  show ?thesis unfolding window_snoc[OF m k] rk_h_eq by simp
qed

lemma rk_state_Suc:
  "rk_state tx pat (Suc k) =
     rk_step tx pat (fst (rk_init tx pat)) (rk_h (length pat)) k (rk_state tx pat k)"
  by (simp add: rk_state_def)

lemma rk_step_fst:
  assumes "k + length pat \<le> length tx" "occurs_at tx pat k \<longrightarrow> ph = th"
  shows "fst (rk_step tx pat ph h k (ms, c, col, th)) =
           (if occurs_at tx pat k then ms @ [k] else ms)"
proof -
  obtain j' c' where cw: "compare_while tx pat k 0 c = (j', c')" by force
  from compare_while_occurs[OF cw assms(1)] cw assms(2) show ?thesis
    by (simp add: rk_step_def Let_def)
qed

lemma rk_step_hash:
  "snd (snd (snd (rk_step tx pat ph h k (ms, c, col, th)))) =
     (if k < length tx - length pat
      then (base * (th - ord (tx ! k) * h) + ord (tx ! (k + length pat))) mod prime
      else th)"
proof -
  have "\<not> (base * (th - ord (tx ! k) * h) + ord (tx ! (k + length pat))) mod prime < 0"
    by (simp add: prime_def)
  then show ?thesis
    by (simp add: rk_step_def Let_def split: prod.splits)
qed

lemma horner_occurs:
  "occurs_at tx pat k \<Longrightarrow> horner_hash pat = horner_hash (take (length pat) (drop k tx))"
  by (simp add: occurs_at_def)

lemma rk_state_inv:
  assumes m: "0 < length pat" and k: "k + length pat \<le> length tx"
  shows "fst (rk_state tx pat k) = filter (occurs_at tx pat) [0..<k] \<and>
         snd (snd (snd (rk_state tx pat k))) = horner_hash (take (length pat) (drop k tx))"
  using k
proof (induction k)
  case 0
  then show ?case by (simp add: rk_state_def rk_init_eq)
next
  case (Suc k)
  obtain ms c col th where st: "rk_state tx pat k = (ms, c, col, th)"
    by (metis prod_cases4)
  from Suc st have ms: "ms = filter (occurs_at tx pat) [0..<k]"
    and th: "th = horner_hash (take (length pat) (drop k tx))"
    by simp_all
  from Suc.prems have len: "length pat \<le> length tx" by simp
  have ph: "fst (rk_init tx pat) = horner_hash pat" using len by (simp add: rk_init_eq)
  from Suc.prems have k: "k + length pat < length tx" by simp
  have "fst (rk_state tx pat (Suc k)) = (if occurs_at tx pat k then ms @ [k] else ms)"
    unfolding rk_state_Suc st ph using k th
    by (intro rk_step_fst) (simp_all add: horner_occurs)
  moreover have "snd (snd (snd (rk_state tx pat (Suc k))))
      = horner_hash (take (length pat) (drop (k + 1) tx))"
  proof -
    from k have "k < length tx - length pat" by simp
    with rolling_window[OF m k th] show ?thesis
      unfolding rk_state_Suc st rk_step_hash by simp
  qed
  ultimately show ?case using ms by simp
qed

lemma rk_state_final:
  assumes m: "0 < length pat" and len: "length pat \<le> length tx"
  shows "fst (rk_state tx pat (length tx - length pat + 1)) = match_positions tx pat"
proof -
  let ?k = "length tx - length pat"
  from len have k: "?k + length pat \<le> length tx" by simp
  obtain ms c col th where st: "rk_state tx pat ?k = (ms, c, col, th)"
    by (metis prod_cases4)
  from rk_state_inv[OF m k] st have ms: "ms = filter (occurs_at tx pat) [0..<?k]"
    and th: "th = horner_hash (take (length pat) (drop ?k tx))"
    by simp_all
  have ph: "fst (rk_init tx pat) = horner_hash pat" using len by (simp add: rk_init_eq)
  have "fst (rk_state tx pat (Suc ?k)) = (if occurs_at tx pat ?k then ms @ [?k] else ms)"
    unfolding rk_state_Suc st ph using k th
    by (intro rk_step_fst) (simp_all add: horner_occurs)
  with ms len show ?thesis by (simp add: match_positions_upt)
qed

lemma rabin_karp_matches:
  assumes "(if \<not> cs then lower pat else pat) \<noteq> []"
  shows "matches (rabin_karp_search lower tx pat cs) =
     match_positions (if \<not> cs then lower tx else tx)
                     (if \<not> cs then lower pat else pat)"
proof -
  define t where "t = (if \<not> cs then lower tx else tx)"
  define p where "p = (if \<not> cs then lower pat else pat)"
  from assms have m: "0 < length p" by (simp add: p_def)
  show ?thesis
  proof (cases "length p > length t")
    case True
    then show ?thesis
      by (simp add: rabin_karp_search_def Let_def match_positions_short t_def p_def)
  next
    case False
    then have len: "length p \<le> length t" by simp
    obtain ms c col th where st: "rk_state t p (length t - length p + 1) = (ms, c, col, th)"
      by (metis prod_cases4)
    with rk_state_final[OF m len] have "ms = match_positions t p" by simp
    with st False show ?thesis
      by (simp add: rabin_karp_search_def Let_def t_def p_def)
  qed
qed

section \<open>The three searches\<close>

lemma kmp_inv_init: "0 < length pat \<Longrightarrow> kmp_inv tx pat 0 0 []"
  by (simp add: kmp_inv_def pre_def)

lemma kmp_search_matches:
  assumes "(if \<not> cs then lower pat else pat) \<noteq> []"
  shows "\<exists>r. kmp_search lower tx pat cs = Some (Inr r) \<and> matches r =
     match_positions (if \<not> cs then lower tx else tx)
                     (if \<not> cs then lower pat else pat)"
proof -
  define t where "t = (if \<not> cs then lower tx else tx)"
  define p where "p = (if \<not> cs then lower pat else pat)"
  from assms have m: "0 < length p" by (simp add: p_def)
  show ?thesis
  proof (cases "length p > length t")
    case True
    then show ?thesis
      by (simp add: kmp_search_def Let_def match_positions_short t_def p_def)
  next
    case False
    from build_failure_function_lps[of p] obtain lps where
      b: "build_failure_function p = Some (Inr lps)" and ll: "length lps = length p"
      and at: "\<forall>k<length p. lps_at p k (lps ! k)" by blast
    from kmp_loop_total[OF ll at kmp_inv_init[OF m], of t 0] obtain c where
      "kmp_loop t p lps 0 0 [] 0 = Some (Inr (match_positions t p, c))" by blast
    with b False show ?thesis
      by (simp add: kmp_search_def Let_def t_def p_def)
  qed
qed

section \<open>The empty pattern\<close>

lemma py_simps: "py [] = []" "py (c # cs) = of_char c # py cs"
  by (simp_all add: py_def)

lemma occurs_at_empty: "occurs_at tx [] i \<longleftrightarrow> i \<le> length tx"
  by (simp add: occurs_at_def)

lemma match_positions_empty: "match_positions tx [] = [0..<length tx + 1]"
proof -
  have "filter (occurs_at tx []) [0..<length tx + 1] = [0..<length tx + 1]"
    by (intro filter_True) (simp add: occurs_at_empty)
  then show ?thesis by (simp add: match_positions_def)
qed

lemma compare_while_empty: "compare_while tx [] i 0 c = (0, c)"
  by (subst compare_while.simps) simp

lemma bf_fold_empty_snd: "snd (fold (bf_step tx []) xs (ms, c)) = c"
  by (induction xs arbitrary: ms) (simp_all add: bf_step_def compare_while_empty)

lemma brute_force_empty_comparisons:
  assumes "(if \<not> cs then lower pat else pat) = []"
  shows "comparisons (brute_force_search lower tx pat cs) = 0"
proof -
  define t where "t = (if \<not> cs then lower tx else tx)"
  obtain ms c where f: "fold (bf_step t []) [0..<length t + 1] ([], 0) = (ms, c)" by force
  with bf_fold_empty_snd[of t "[0..<length t + 1]" "[]" 0] have "c = 0" by simp
  with f assms show ?thesis
    by (simp add: brute_force_search_def Let_def t_def split: if_splits)
qed

lemma rk_init_empty: "rk_init tx [] = (0, 0)"
  by (simp add: rk_init_def)

lemma rk_step_empty:
  "fst (rk_step tx [] 0 h k (ms, c, col, th)) = (if th = 0 then ms @ [k] else ms)"
  "fst (snd (rk_step tx [] 0 h k (ms, c, col, th))) = c"
  by (simp_all add: rk_step_def Let_def compare_while_empty)

lemma rk_state_empty:
  "fst (rk_state tx [] k) =
      filter (\<lambda>i. snd (snd (snd (rk_state tx [] i))) = 0) [0..<k] \<and>
   fst (snd (rk_state tx [] k)) = 0"
proof (induction k)
  case 0
  then show ?case by (simp add: rk_state_def)
next
  case (Suc k)
  obtain ms c col th where st: "rk_state tx [] k = (ms, c, col, th)"
    by (metis prod_cases4)
  have "rk_state tx [] (Suc k) = rk_step tx [] 0 (rk_h 0) k (ms, c, col, th)"
    by (simp add: rk_state_Suc st rk_init_empty)
  then have "fst (rk_state tx [] (Suc k)) = (if th = 0 then ms @ [k] else ms)"
    and "fst (snd (rk_state tx [] (Suc k))) = c"
    by (simp_all add: rk_step_empty)
  with Suc st show ?case by simp
qed

lemma rabin_karp_empty:
  assumes "(if \<not> cs then lower pat else pat) = []"
  shows "matches (rabin_karp_search lower tx pat cs) =
           filter (\<lambda>i. snd (snd (snd (rk_state (if \<not> cs then lower tx else tx) [] i))) = 0)
             [0..<length (if \<not> cs then lower tx else tx) + 1]"
    and "comparisons (rabin_karp_search lower tx pat cs) = 0"
proof -
  define t where "t = (if \<not> cs then lower tx else tx)"
  obtain ms c col th where st: "rk_state t [] (length t + 1) = (ms, c, col, th)"
    by (metis prod_cases4)
  with rk_state_empty[of t "length t + 1"]
  have "ms = filter (\<lambda>i. snd (snd (snd (rk_state t [] i))) = 0) [0..<length t + 1]" "c = 0"
    by simp_all
  with st assms show "matches (rabin_karp_search lower tx pat cs) =
           filter (\<lambda>i. snd (snd (snd (rk_state (if \<not> cs then lower tx else tx) [] i))) = 0)
             [0..<length (if \<not> cs then lower tx else tx) + 1]"
    and "comparisons (rabin_karp_search lower tx pat cs) = 0"
    by (simp_all add: rabin_karp_search_def Let_def t_def split: if_splits)
qed

lemma rk_state_zero_hash: "snd (snd (snd (rk_state tx [] 0))) = 0"
  by (simp add: rk_state_def rk_init_empty)

section \<open>Claims about the string-matching algorithms\<close>

text \<open>
  C7: for every pattern, \<open>_build_failure_function\<close> returns an array as long as the
  pattern whose entry \<open>i\<close> is the length of the longest proper prefix of
  \<open>pattern[0..i]\<close> that is also a suffix of it; for the pattern \<open>aabaabaaa\<close> the array is
  \<open>[0,1,0,1,2,3,4,5,2]\<close>. The loop ends and raises nothing.
\<close>

theorem build_failure_function_correct:
  "(\<exists>lps. build_failure_function pattern = Some (Inr lps) \<and> length lps = length pattern \<and>
       (\<forall>i<length pattern. is_lps pattern i (lps ! i))) \<and>
   build_failure_function (py ''aabaabaaa'') = Some (Inr [0, 1, 0, 1, 2, 3, 4, 5, 2])"
proof
  from build_failure_function_lps[of pattern]
  show "\<exists>lps. build_failure_function pattern = Some (Inr lps) \<and> length lps = length pattern \<and>
       (\<forall>i<length pattern. is_lps pattern i (lps ! i))"
    by (auto simp: is_lps_iff)
  show "build_failure_function (py ''aabaabaaa'') = Some (Inr [0, 1, 0, 1, 2, 3, 4, 5, 2])"
    by code_simp
qed

text \<open>The theorem at the pattern \<open>aab\<close> and the index 1.\<close>

theorem build_failure_function_correct_witness:
  "build_failure_function (py ''aab'') = Some (Inr [0, 1, 0]) \<and>
   (1::nat) < length (py ''aab'') \<and> is_lps (py ''aab'') 1 1"
proof -
  have e: "build_failure_function (py ''aab'') = Some (Inr [0, 1, 0])" by code_simp
  have l: "(1::nat) < length (py ''aab'')" by (simp add: py_def)
  from build_failure_function_correct[of "py ''aab''"] obtain lps where
    b: "build_failure_function (py ''aab'') = Some (Inr lps)"
    and a: "\<forall>i<length (py ''aab''). is_lps (py ''aab'') i (lps ! i)"
    by blast
  from b e have "lps = [0, 1, 0]" by simp
  with a l have "is_lps (py ''aab'') 1 ([0, 1, 0] ! 1)" by blast
  with e l show ?thesis by simp
qed

text \<open>
  C6: for a pattern with \<open>0 < m \<le> n\<close> and every window position \<open>i \<le> n - m\<close>, the
  rolling hash that \<open>rabin_karp_search\<close> holds when iteration \<open>i\<close> begins is the
  Horner-rule hash, modulo 101, of the window \<open>text[i..i+m-1]\<close>.
\<close>

theorem rolling_hash_is_window_hash:
  assumes "0 < length pattern" and "length pattern \<le> length text"
    and "i \<le> length text - length pattern"
  shows "(case rk_state text pattern i of (ms, cnt, hash_collisions, text_hash) \<Rightarrow>
            text_hash = horner_hash (take (length pattern) (drop i text)))"
proof -
  from assms have "i + length pattern \<le> length text" by simp
  from rk_state_inv[OF assms(1) this] show ?thesis by (auto split: prod.splits)
qed

text \<open>The theorem at the text \<open>abcab\<close>, the pattern \<open>ab\<close> and the last window.\<close>

theorem rolling_hash_is_window_hash_witness:
  "0 < length (py ''ab'') \<and> length (py ''ab'') \<le> length (py ''abcab'') \<and>
   3 \<le> length (py ''abcab'') - length (py ''ab'') \<and>
   (case rk_state (py ''abcab'') (py ''ab'') 3 of (ms, cnt, hash_collisions, text_hash) \<Rightarrow>
      text_hash = horner_hash (take (length (py ''ab'')) (drop 3 (py ''abcab''))))"
proof -
  have h: "0 < length (py ''ab'')" "length (py ''ab'') \<le> length (py ''abcab'')"
    "3 \<le> length (py ''abcab'') - length (py ''ab'')"
    by (simp_all add: py_def)
  from rolling_hash_is_window_hash[OF h] h show ?thesis by simp
qed

text \<open>
  C1, amended: for every text, for every pattern that is not empty once normalised, and for
  both values of the case-sensitive flag, \<open>kmp_search\<close> returns a result, and the three
  searches return the same list of match positions, the occurrences of the pattern in the
  text in increasing order.
\<close>

theorem search_algorithms_agree:
  assumes "(if \<not> case_sensitive then lower pattern else pattern) \<noteq> []"
  shows "\<exists>r. kmp_search lower text pattern case_sensitive = Some (Inr r) \<and>
           matches r = matches (brute_force_search lower text pattern case_sensitive) \<and>
           matches (rabin_karp_search lower text pattern case_sensitive) =
             matches (brute_force_search lower text pattern case_sensitive) \<and>
           matches (brute_force_search lower text pattern case_sensitive) =
             match_positions (if \<not> case_sensitive then lower text else text)
                             (if \<not> case_sensitive then lower pattern else pattern)"
  using assms
    kmp_search_matches[of case_sensitive lower pattern "text"]
    rabin_karp_matches[of case_sensitive lower pattern "text"]
    brute_force_matches[of lower "text" pattern case_sensitive]
  by auto

text \<open>The theorem at the text \<open>abABabab\<close> and the pattern \<open>aba\<close>, ignoring case.\<close>

theorem search_algorithms_agree_witness:
  "(if \<not> False then ascii_lower (py ''aba'') else py ''aba'') \<noteq> [] \<and>
   (\<exists>r. kmp_search ascii_lower (py ''abABabab'') (py ''aba'') False = Some (Inr r) \<and>
        matches r = [0, 2, 4] \<and>
        matches (rabin_karp_search ascii_lower (py ''abABabab'') (py ''aba'') False) = [0, 2, 4] \<and>
        matches (brute_force_search ascii_lower (py ''abABabab'') (py ''aba'') False) = [0, 2, 4])"
proof -
  have h: "(if \<not> False then ascii_lower (py ''aba'') else py ''aba'') \<noteq> []"
    by (simp add: py_def ascii_lower_def)
  have b: "matches (brute_force_search ascii_lower (py ''abABabab'') (py ''aba'') False) = [0, 2, 4]"
    by code_simp
  from search_algorithms_agree[of False ascii_lower "py ''aba''" "py ''abABabab''"] b h
  show ?thesis by auto
qed

text \<open>
  C1 as stated fails at the empty pattern: on the text \<open>a\<close> Brute Force returns the
  positions 0 and 1, Rabin-Karp returns position 0 only, and KMP raises IndexError.
\<close>

theorem search_algorithms_agree_counterexample:
  "matches (brute_force_search ascii_lower (py ''a'') (py []) False) = [0, 1] \<and>
   matches (rabin_karp_search ascii_lower (py ''a'') (py []) False) = [0] \<and>
   kmp_search ascii_lower (py ''a'') (py []) False = Some (Inl IndexError) \<and>
   set (matches (brute_force_search ascii_lower (py ''a'') (py []) False)) \<noteq>
     set (matches (rabin_karp_search ascii_lower (py ''a'') (py []) False))"
proof -
  have b: "matches (brute_force_search ascii_lower (py ''a'') (py []) False) = [0, 1]"
    by code_simp
  have r: "matches (rabin_karp_search ascii_lower (py ''a'') (py []) False) = [0]"
    by code_simp
  have k: "kmp_search ascii_lower (py ''a'') (py []) False = Some (Inl IndexError)"
    by code_simp
  from b r k show ?thesis by simp
qed

text \<open>
  C10, amended: with the empty pattern, \<open>brute_force_search\<close> returns every position from
  0 to the length of the normalised text with no comparison; \<open>rabin_karp_search\<close> makes
  no comparison either and returns the positions at which its rolling hash is 0 when the
  iteration begins, position 0 always among them.
\<close>

theorem empty_pattern_search:
  assumes "(if \<not> case_sensitive then lower pattern else pattern) = []"
  shows "(let t = (if \<not> case_sensitive then lower text else text)
          in matches (brute_force_search lower text pattern case_sensitive) = [0..<length t + 1] \<and>
             comparisons (brute_force_search lower text pattern case_sensitive) = 0 \<and>
             comparisons (rabin_karp_search lower text pattern case_sensitive) = 0 \<and>
             matches (rabin_karp_search lower text pattern case_sensitive) =
               filter (\<lambda>i. case rk_state t [] i of
                             (ms, cnt, hash_collisions, text_hash) \<Rightarrow> text_hash = 0)
                      [0..<length t + 1] \<and>
             0 \<in> set (matches (rabin_karp_search lower text pattern case_sensitive)))"
proof -
  define t where "t = (if \<not> case_sensitive then lower text else text)"
  have c: "(\<lambda>i. case rk_state t [] i of (ms, cnt, hash_collisions, text_hash) \<Rightarrow> text_hash = 0)
      = (\<lambda>i. snd (snd (snd (rk_state t [] i))) = 0)"
    by (auto simp: fun_eq_iff split: prod.splits)
  have bm: "matches (brute_force_search lower text pattern case_sensitive) = [0..<length t + 1]"
    using brute_force_matches[of lower "text" pattern case_sensitive] assms
    by (simp add: match_positions_empty t_def)
  have rm: "matches (rabin_karp_search lower text pattern case_sensitive) =
      filter (\<lambda>i. snd (snd (snd (rk_state t [] i))) = 0) [0..<length t + 1]"
    using assms rabin_karp_empty(1)[of case_sensitive lower pattern "text"]
    by (simp add: t_def)
  have "0 \<in> set (filter (\<lambda>i. snd (snd (snd (rk_state t [] i))) = 0) [0..<length t + 1])"
    by (simp add: rk_state_zero_hash)
  with bm rm assms
    brute_force_empty_comparisons[of case_sensitive lower pattern "text"]
    rabin_karp_empty(2)[of case_sensitive lower pattern "text"]
  show ?thesis unfolding Let_def t_def[symmetric] c by simp
qed

text \<open>The theorem at the text \<open>ab\<close>, case-sensitive.\<close>

theorem empty_pattern_search_witness:
  "(if \<not> True then ascii_lower (py []) else py []) = [] \<and>
   matches (brute_force_search ascii_lower (py ''ab'') (py []) True) = [0, 1, 2] \<and>
   comparisons (brute_force_search ascii_lower (py ''ab'') (py []) True) = 0 \<and>
   comparisons (rabin_karp_search ascii_lower (py ''ab'') (py []) True) = 0 \<and>
   0 \<in> set (matches (rabin_karp_search ascii_lower (py ''ab'') (py []) True))"
proof -
  have h: "(if \<not> True then ascii_lower (py []) else py []) = []" by (simp add: py_def)
  have u: "[0..<length (py ''ab'') + 1] = [0, 1, 2]" by code_simp
  have n: "(if \<not> True then ascii_lower (py ''ab'') else py ''ab'') = py ''ab''" by simp
  from empty_pattern_search[of True ascii_lower "py []" "py ''ab''", OF h, unfolded Let_def n]
  have "matches (brute_force_search ascii_lower (py ''ab'') (py []) True) =
          [0..<length (py ''ab'') + 1] \<and>
        comparisons (brute_force_search ascii_lower (py ''ab'') (py []) True) = 0 \<and>
        comparisons (rabin_karp_search ascii_lower (py ''ab'') (py []) True) = 0 \<and>
        0 \<in> set (matches (rabin_karp_search ascii_lower (py ''ab'') (py []) True))"
    by blast
  with h show ?thesis unfolding u[symmetric] by blast
qed

text \<open>
  C10 as stated fails for Rabin-Karp: on the text \<open>a\<close> it returns position 0 only, one
  match and not two.
\<close>

theorem empty_pattern_search_counterexample:
  "matches (rabin_karp_search ascii_lower (py ''a'') (py []) True) = [0] \<and>
   1 \<notin> set (matches (rabin_karp_search ascii_lower (py ''a'') (py []) True)) \<and>
   length (matches (rabin_karp_search ascii_lower (py ''a'') (py []) True)) \<noteq>
     length (py ''a'') + 1"
proof -
  have r: "matches (rabin_karp_search ascii_lower (py ''a'') (py []) True) = [0]"
    by code_simp
  then show ?thesis by (simp add: py_def)
qed

section \<open>Single-CV scoring\<close>

lemma kmp_search_empty:
  assumes "(if \<not> cs then lower pat else pat) = []"
  shows "(\<exists>r. kmp_search lower tx pat cs = Some (Inr r)) \<or>
         kmp_search lower tx pat cs = Some (Inl IndexError)"
proof -
  have b: "build_failure_function [] = Some (Inr [])"
    by (simp add: build_failure_function_def build_loop.simps)
  have "kmp_loop t [] [] 0 0 [] 0 = Some (Inr ([], 0)) \<or>
        kmp_loop t [] [] 0 0 [] 0 = Some (Inl IndexError)" for t
    by (subst kmp_loop.simps, simp)+
  then have "kmp_loop (if \<not> cs then lower tx else tx) [] [] 0 0 [] 0 = Some (Inr ([], 0)) \<or>
        kmp_loop (if \<not> cs then lower tx else tx) [] [] 0 0 [] 0 = Some (Inl IndexError)" .
  then show ?thesis
  proof
    assume "kmp_loop (if \<not> cs then lower tx else tx) [] [] 0 0 [] 0 = Some (Inr ([], 0))"
    with assms b show ?thesis by (simp add: kmp_search_def Let_def)
  next
    assume "kmp_loop (if \<not> cs then lower tx else tx) [] [] 0 0 [] 0 = Some (Inl IndexError)"
    with assms b show ?thesis by (simp add: kmp_search_def Let_def)
  qed
qed

lemma kmp_search_cases:
  "(\<exists>r. kmp_search lower tx pat cs = Some (Inr r)) \<or>
   kmp_search lower tx pat cs = Some (Inl IndexError)"
proof (cases "(if \<not> cs then lower pat else pat) = []")
  case True
  then show ?thesis by (rule kmp_search_empty)
next
  case False
  with kmp_search_matches[of cs lower pat tx] show ?thesis by blast
qed

lemma run_algorithm_unknown:
  "\<not> known_algorithm algorithm \<Longrightarrow>
     run_algorithm lower algorithm cv_text keyword cs =
       Some (Inl (ValueError (py ''Unknown algorithm: '' @ algorithm)))"
  by (simp add: run_algorithm_def known_algorithm_def)

lemma run_algorithm_known:
  assumes "known_algorithm algorithm"
  shows "(\<exists>r. run_algorithm lower algorithm cv_text keyword cs = Some (Inr r)) \<or>
         run_algorithm lower algorithm cv_text keyword cs = Some (Inl IndexError)"
  using assms kmp_search_cases[of lower cv_text keyword cs]
  by (auto simp: run_algorithm_def known_algorithm_def)

lemma run_algorithm_returns:
  assumes "known_algorithm algorithm" "(if \<not> cs then lower keyword else keyword) \<noteq> []"
  shows "\<exists>r. run_algorithm lower algorithm cv_text keyword cs = Some (Inr r)"
  using assms kmp_search_matches[of cs lower keyword cv_text]
  by (auto simp: run_algorithm_def known_algorithm_def)

lemma analyze_loop_unknown:
  assumes "\<not> known_algorithm algorithm"
  shows "\<exists>k\<in>set kws. strip k \<noteq> [] \<Longrightarrow>
     analyze_loop lower cv_text algorithm cs kws st =
       Some (Inl (ValueError (py ''Unknown algorithm: '' @ algorithm)))"
proof (induction kws arbitrary: st)
  case Nil
  then show ?case by simp
next
  case (Cons kw kws)
  obtain matched missing tc where st: "st = (matched, missing, tc)" by (metis prod_cases3)
  show ?case
  proof (cases "strip kw = []")
    case True
    with Cons.prems have "\<exists>k\<in>set kws. strip k \<noteq> []" by auto
    from Cons.IH[OF this] True show ?thesis by (simp add: st)
  next
    case False
    with run_algorithm_unknown[OF assms] show ?thesis by (simp add: st)
  qed
qed

lemma analyze_loop_known:
  assumes "known_algorithm algorithm"
  shows "(\<exists>st'. analyze_loop lower cv_text algorithm cs kws st = Some (Inr st')) \<or>
         analyze_loop lower cv_text algorithm cs kws st = Some (Inl IndexError)"
proof (induction kws arbitrary: st)
  case Nil
  then show ?case by (cases st) auto
next
  case (Cons kw kws)
  obtain matched missing tc where st: "st = (matched, missing, tc)" by (metis prod_cases3)
  show ?case
  proof (cases "strip kw = []")
    case True
    with Cons.IH[of "(matched, missing, tc)"] show ?thesis by (simp add: st)
  next
    case False
    from run_algorithm_known[OF assms, of lower cv_text "strip kw" cs]
    show ?thesis
    proof
      assume "\<exists>r. run_algorithm lower algorithm cv_text (strip kw) cs = Some (Inr r)"
      then obtain r where r: "run_algorithm lower algorithm cv_text (strip kw) cs = Some (Inr r)"
        by blast
      show ?thesis
      proof (cases "matches r \<noteq> []")
        case True
        with Cons.IH[of "(matched @ [strip kw], missing, tc + comparisons r)"] False r
        show ?thesis by (simp add: st)
      next
        case e: False
        with Cons.IH[of "(matched, missing @ [strip kw], tc + comparisons r)"] False r
        show ?thesis by (simp add: st)
      qed
    next
      assume "run_algorithm lower algorithm cv_text (strip kw) cs = Some (Inl IndexError)"
      with False show ?thesis by (simp add: st)
    qed
  qed
qed

lemma analyze_loop_returns:
  assumes "known_algorithm algorithm" "cs \<or> (\<forall>s. s \<noteq> [] \<longrightarrow> lower s \<noteq> [])"
  shows "\<exists>st'. analyze_loop lower cv_text algorithm cs kws st = Some (Inr st')"
proof (induction kws arbitrary: st)
  case Nil
  then show ?case by (cases st) auto
next
  case (Cons kw kws)
  obtain matched missing tc where st: "st = (matched, missing, tc)" by (metis prod_cases3)
  show ?case
  proof (cases "strip kw = []")
    case True
    with Cons.IH[of "(matched, missing, tc)"] show ?thesis by (simp add: st)
  next
    case False
    with assms(2) have "(if \<not> cs then lower (strip kw) else strip kw) \<noteq> []" by auto
    with assms(1) run_algorithm_returns[of algorithm cs lower "strip kw" cv_text]
    obtain r where r: "run_algorithm lower algorithm cv_text (strip kw) cs = Some (Inr r)"
      by blast
    show ?thesis
    proof (cases "matches r \<noteq> []")
      case True
      with Cons.IH[of "(matched @ [strip kw], missing, tc + comparisons r)"] False r
      show ?thesis by (simp add: st)
    next
      case e: False
      with Cons.IH[of "(matched, missing @ [strip kw], tc + comparisons r)"] False r
      show ?thesis by (simp add: st)
    qed
  qed
qed

lemma strip_hd:
  assumes "strip k \<noteq> []"
  shows "\<not> isspace (hd (strip k))"
proof -
  let ?d = "dropWhile isspace k"
  let ?e = "dropWhile isspace (rev ?d)"
  from assms have e: "?e \<noteq> []" by (simp add: strip_def)
  then have d: "?d \<noteq> []" by (cases "?d") simp_all
  have "rev ?d = takeWhile isspace (rev ?d) @ ?e" by simp
  with e have "last (rev ?d) = last ?e" by (metis last_appendR)
  then have "last ?e = hd ?d" using d by (simp add: last_rev)
  moreover have "hd (strip k) = last ?e" using e by (simp add: strip_def hd_rev)
  moreover from d have "\<not> isspace (hd ?d)" by (rule hd_dropWhile)
  ultimately show ?thesis by simp
qed

lemma strip_blank:
  assumes "strip b = []"
  shows "\<forall>c\<in>set b. isspace c"
proof -
  let ?d = "dropWhile isspace b"
  from assms have "dropWhile isspace (rev ?d) = []" by (simp add: strip_def)
  then have all: "\<forall>c\<in>set ?d. isspace c" by (simp add: dropWhile_eq_Nil_conv)
  have "?d = []"
  proof (rule ccontr)
    assume d: "?d \<noteq> []"
    then have "\<not> isspace (hd ?d)" by (rule hd_dropWhile)
    moreover from d have "hd ?d \<in> set ?d" by (rule hd_in_set)
    ultimately show False using all by blast
  qed
  then show ?thesis by (simp add: dropWhile_eq_Nil_conv)
qed

lemma blank_not_stripped:
  assumes "strip b = []" "strip k \<noteq> []"
  shows "b \<noteq> strip k"
proof
  assume eq: "b = strip k"
  with assms(2) have "hd b \<in> set b" by (intro hd_in_set) simp
  with strip_blank[OF assms(1)] have "isspace (hd b)" by blast
  with strip_hd[OF assms(2)] eq show False by simp
qed

lemma analyze_loop_account:
  "analyze_loop lower cv_text algorithm cs kws (matched, missing, tc) =
       Some (Inr (matched', missing', tc')) \<Longrightarrow>
     length matched' + length missing' =
       length matched + length missing + length (filter (\<lambda>k. strip k \<noteq> []) kws) \<and>
     set matched' \<union> set missing' \<subseteq>
       set matched \<union> set missing \<union> {strip k |k. k \<in> set kws \<and> strip k \<noteq> []}"
proof (induction kws arbitrary: matched missing tc)
  case Nil
  then show ?case by simp
next
  case (Cons kw kws)
  show ?case
  proof (cases "strip kw = []")
    case True
    with Cons.prems
    have "analyze_loop lower cv_text algorithm cs kws (matched, missing, tc) =
            Some (Inr (matched', missing', tc'))" by simp
    from Cons.IH[OF this] True show ?thesis by auto
  next
    case False
    from Cons.prems False obtain r where
      r: "run_algorithm lower algorithm cv_text (strip kw) cs = Some (Inr r)"
      by (auto simp: Let_def split: option.splits sum.splits)
    show ?thesis
    proof (cases "matches r \<noteq> []")
      case True
      with Cons.prems False r
      have "analyze_loop lower cv_text algorithm cs kws
              (matched @ [strip kw], missing, tc + comparisons r) =
            Some (Inr (matched', missing', tc'))" by simp
      from Cons.IH[OF this] False show ?thesis by auto
    next
      case e: False
      with Cons.prems False r
      have "analyze_loop lower cv_text algorithm cs kws
              (matched, missing @ [strip kw], tc + comparisons r) =
            Some (Inr (matched', missing', tc'))" by simp
      from Cons.IH[OF this] False show ?thesis by auto
    qed
  qed
qed

lemma analyze_cv_result:
  assumes "cv_text \<noteq> []" "kwds \<noteq> []"
    and "analyze_cv lower cv_text kwds algorithm cs = Some (Inr r)"
  shows "\<exists>tc. analyze_loop lower cv_text algorithm cs kwds ([], [], 0) =
              Some (Inr (matched_keywords r, missing_keywords r, tc)) \<and>
            total_keywords r = length kwds \<and>
            relevance_score r = calculate_relevance_score (matched_keywords r) kwds"
  using assms
  by (auto simp: analyze_cv_def split: option.splits sum.splits prod.splits)

lemma analyze_cv_unknown:
  assumes "cv_text \<noteq> []" "\<exists>k\<in>set kwds. strip k \<noteq> []" "\<not> known_algorithm algorithm"
  shows "analyze_cv lower cv_text kwds algorithm cs =
           Some (Inl (ValueError (py ''Unknown algorithm: '' @ algorithm)))"
proof -
  from assms(2) have "kwds \<noteq> []" by auto
  with assms(1) analyze_loop_unknown[OF assms(3) assms(2), of lower cv_text cs "([], [], 0)"]
  show ?thesis by (simp add: analyze_cv_def)
qed

lemma analyze_cv_known:
  assumes "known_algorithm algorithm"
  shows "(\<exists>r. analyze_cv lower cv_text kwds algorithm cs = Some (Inr r)) \<or>
         analyze_cv lower cv_text kwds algorithm cs = Some (Inl IndexError)"
  using analyze_loop_known[OF assms, of lower cv_text cs kwds "([], [], 0)"]
  by (auto simp: analyze_cv_def)

lemma analyze_cv_returns:
  assumes "known_algorithm algorithm" "cs \<or> (\<forall>s. s \<noteq> [] \<longrightarrow> lower s \<noteq> [])"
  shows "\<exists>r. analyze_cv lower cv_text kwds algorithm cs = Some (Inr r)"
  using analyze_loop_returns[OF assms, of cv_text kwds "([], [], 0)"]
  by (auto simp: analyze_cv_def)

lemma example_strip:
  "strip (py ''a'') = py ''a''" "strip (py '' '') = []"
  by (simp_all add: strip_def isspace_def py_def)

lemma example_nonempty: "py ''a'' \<noteq> []" "py ''ab'' \<noteq> []"
  by (simp_all add: py_def)

lemma example_run:
  "run_algorithm ascii_lower (py ''Brute Force'') (py ''ab'') (py ''a'') False
     = Some (Inr \<lparr>matches = [0], comparisons = 2, algorithm_name = py ''Brute Force'',
          pattern_length = 1, text_length = 2\<rparr>)"
  by code_simp

lemma example_loop:
  "analyze_loop ascii_lower (py ''ab'') (py ''Brute Force'') False
     [py ''a'', py '' ''] ([], [], 0) = Some (Inr ([py ''a''], [], 2))"
  by (simp add: example_strip example_run example_nonempty)

lemma example_analyze_cv:
  "analyze_cv ascii_lower (py ''ab'') [py ''a'', py '' ''] (py ''Brute Force'') False
     = Some (Inr \<lparr>cv_filename = [], job_description = [],
          algorithm_used = py ''Brute Force'',
          matched_keywords = [py ''a''], missing_keywords = [],
          relevance_score = 2296835809958953 / 2 ^ 52, comparison_count = 2,
          total_keywords = 2\<rparr>)"
  unfolding analyze_cv_def example_loop using example_nonempty
  by (simp add: calculate_relevance_score_def double_defs Let_def)

lemma example_known:
  "\<not> known_algorithm (py ''Quick'')" "known_algorithm (py ''Brute Force'')"
  by (simp_all add: known_algorithm_def py_def)

section \<open>Claims about the analysis engine\<close>

text \<open>
  C2, amended: for every pair of lists, \<open>_calculate_relevance_score\<close> is 0 when the list
  of all keywords is empty, and otherwise the matched fraction plus the density bonus
  \<open>min(0.1, matched * 0.01)\<close> (given only when something matched), capped at 1, each
  operation rounded to the nearest double; 5 matched of 5 give 1.0, and 3 matched of 10
  give 0.32999999999999996, which is \<open>2972375754064527 / 2^53\<close>.
\<close>

theorem relevance_score_formula:
  "calculate_relevance_score matched total_kws =
     (if total_kws = [] then 0
      else value_of
             (py_min lit_1_0
                (if length matched > 0
                 then float_add
                        (float_truediv (int (length matched)) (int (length total_kws)))
                        (py_min lit_0_1
                           (float_mul (float_of_int (int (length matched))) lit_0_01))
                 else float_truediv (int (length matched)) (int (length total_kws))))) \<and>
   (length matched = 5 \<and> length total_kws = 5 \<longrightarrow>
      calculate_relevance_score matched total_kws = 1) \<and>
   (length matched = 3 \<and> length total_kws = 10 \<longrightarrow>
      calculate_relevance_score matched total_kws = 2972375754064527 / 2 ^ 53)"
proof (intro conjI impI)
  show "calculate_relevance_score matched total_kws =
     (if total_kws = [] then 0
      else value_of
             (py_min lit_1_0
                (if length matched > 0
                 then float_add
                        (float_truediv (int (length matched)) (int (length total_kws)))
                        (py_min lit_0_1
                           (float_mul (float_of_int (int (length matched))) lit_0_01))
                 else float_truediv (int (length matched)) (int (length total_kws)))))"
    by (simp add: calculate_relevance_score_def Let_def)
next
  assume "length matched = 5 \<and> length total_kws = 5"
  moreover from this have "total_kws \<noteq> []" by auto
  ultimately show "calculate_relevance_score matched total_kws = 1"
    by (simp add: calculate_relevance_score_def double_defs Let_def)
next
  assume "length matched = 3 \<and> length total_kws = 10"
  moreover from this have "total_kws \<noteq> []" by auto
  ultimately show "calculate_relevance_score matched total_kws = 2972375754064527 / 2 ^ 53"
    by (simp add: calculate_relevance_score_def double_defs Let_def)
qed

text \<open>The theorem at lists of 3 and 10, and of 5 and 5 keywords.\<close>

theorem relevance_score_formula_witness:
  "length [py ''a'', py ''b'', py ''c''] = 3 \<and> length (replicate 10 (py ''k'')) = 10 \<and>
   calculate_relevance_score [py ''a'', py ''b'', py ''c''] (replicate 10 (py ''k'')) =
     2972375754064527 / 2 ^ 53 \<and>
   length (replicate 5 (py ''k'')) = 5 \<and>
   calculate_relevance_score (replicate 5 (py ''k'')) (replicate 5 (py ''k'')) = 1"
  using relevance_score_formula[of "[py ''a'', py ''b'', py ''c'']" "replicate 10 (py ''k'')"]
    relevance_score_formula[of "replicate 5 (py ''k'')" "replicate 5 (py ''k'')"]
  by simp

text \<open>
  C2 as stated fails at 3 matched of 10: the score is neither the number 0.33 nor the
  double nearest to it, which is \<open>5944751508129055 / 2^54\<close>, but the double just below.
\<close>

theorem relevance_score_formula_counterexample:
  "calculate_relevance_score [py ''a'', py ''b'', py ''c''] (replicate 10 (py ''k'')) \<noteq>
     33 / 100 \<and>
   value_of (round_ratio 33 100 0) = 5944751508129055 / 2 ^ 54 \<and>
   calculate_relevance_score [py ''a'', py ''b'', py ''c''] (replicate 10 (py ''k'')) =
     5944751508129054 / 2 ^ 54"
  by (simp add: calculate_relevance_score_def double_defs Let_def)

text \<open>
  C4: with a non-empty text and a keyword that is not blank, \<open>analyze_cv\<close> raises
  ValueError exactly when the algorithm name is none of the three known names, and with a
  known name it returns a result (for a case-insensitive search, provided that lowercasing
  leaves a non-empty string non-empty, as \<open>str.lower\<close> does); with the empty text or the
  empty keyword list it raises nothing for any name, and the result has score 0, no matched
  keyword and every keyword missing.
\<close>

theorem analyze_cv_errors:
  "(cv_text \<noteq> [] \<and> kwds \<noteq> [] \<and> (\<exists>k\<in>set kwds. strip k \<noteq> []) \<longrightarrow>
      ((\<exists>msg. analyze_cv lower cv_text kwds algorithm case_sensitive =
                Some (Inl (ValueError msg))) \<longleftrightarrow> \<not> known_algorithm algorithm) \<and>
      (known_algorithm algorithm \<and>
         (case_sensitive \<or> (\<forall>s. s \<noteq> [] \<longrightarrow> lower s \<noteq> [])) \<longrightarrow>
         (\<exists>r. analyze_cv lower cv_text kwds algorithm case_sensitive = Some (Inr r)))) \<and>
   (cv_text = [] \<or> kwds = [] \<longrightarrow>
      (\<exists>r. analyze_cv lower cv_text kwds algorithm case_sensitive = Some (Inr r) \<and>
           relevance_score r = 0 \<and> matched_keywords r = [] \<and>
           missing_keywords r = kwds))"
proof (intro conjI impI)
  assume a: "cv_text \<noteq> [] \<and> kwds \<noteq> [] \<and> (\<exists>k\<in>set kwds. strip k \<noteq> [])"
  show "(\<exists>msg. analyze_cv lower cv_text kwds algorithm case_sensitive =
                Some (Inl (ValueError msg))) \<longleftrightarrow> \<not> known_algorithm algorithm"
  proof
    assume v: "\<exists>msg. analyze_cv lower cv_text kwds algorithm case_sensitive =
                Some (Inl (ValueError msg))"
    show "\<not> known_algorithm algorithm"
    proof
      assume "known_algorithm algorithm"
      from analyze_cv_known[OF this, of lower cv_text kwds case_sensitive] v
      show False by auto
    qed
  next
    assume "\<not> known_algorithm algorithm"
    with a analyze_cv_unknown[of cv_text kwds algorithm lower case_sensitive]
    show "\<exists>msg. analyze_cv lower cv_text kwds algorithm case_sensitive =
                Some (Inl (ValueError msg))" by blast
  qed
next
  assume "known_algorithm algorithm \<and>
         (case_sensitive \<or> (\<forall>s. s \<noteq> [] \<longrightarrow> lower s \<noteq> []))"
  then show "\<exists>r. analyze_cv lower cv_text kwds algorithm case_sensitive = Some (Inr r)"
    using analyze_cv_returns[of algorithm case_sensitive lower cv_text kwds] by blast
next
  assume "cv_text = [] \<or> kwds = []"
  then show "\<exists>r. analyze_cv lower cv_text kwds algorithm case_sensitive = Some (Inr r) \<and>
           relevance_score r = 0 \<and> matched_keywords r = [] \<and> missing_keywords r = kwds"
    by (auto simp: analyze_cv_def)
qed

text \<open>The theorem at an unknown name, at a known name, and at the empty text;
  \<open>ascii_lower\<close> leaves every non-empty string non-empty, the keyword \<open>a\<close> among them.\<close>

theorem analyze_cv_errors_witness:
  "py ''ab'' \<noteq> [] \<and> [py ''a'', py '' ''] \<noteq> [] \<and>
   (\<exists>k\<in>set [py ''a'', py '' '']. strip k \<noteq> []) \<and>
   \<not> known_algorithm (py ''Quick'') \<and>
   (\<exists>msg. analyze_cv ascii_lower (py ''ab'') [py ''a'', py '' ''] (py ''Quick'') False =
            Some (Inl (ValueError msg))) \<and>
   known_algorithm (py ''Brute Force'') \<and> ascii_lower (py ''a'') \<noteq> [] \<and>
   (\<exists>r. analyze_cv ascii_lower (py ''ab'') [py ''a'', py '' ''] (py ''Brute Force'') False =
          Some (Inr r)) \<and>
   (\<exists>r. analyze_cv ascii_lower [] [py ''a'', py '' ''] (py ''Quick'') False = Some (Inr r) \<and>
        relevance_score r = 0 \<and> matched_keywords r = [] \<and>
        missing_keywords r = [py ''a'', py '' ''])"
proof -
  have h: "py ''ab'' \<noteq> [] \<and> [py ''a'', py '' ''] \<noteq> [] \<and>
      (\<exists>k\<in>set [py ''a'', py '' '']. strip k \<noteq> [])"
    by (simp add: example_strip example_nonempty)
  have l: "\<forall>s. s \<noteq> [] \<longrightarrow> ascii_lower s \<noteq> []" by (simp add: ascii_lower_def)
  from analyze_cv_errors[of "py ''ab''" "[py ''a'', py '' '']" ascii_lower "py ''Quick''" False]
    analyze_cv_errors[of "py ''ab''" "[py ''a'', py '' '']" ascii_lower "py ''Brute Force''" False]
    analyze_cv_errors[of "[]" "[py ''a'', py '' '']" ascii_lower "py ''Quick''" False]
    h l example_known example_nonempty(1)
  show ?thesis by blast
qed

text \<open>
  C9: when \<open>analyze_cv\<close> returns a result for a non-empty text and a keyword list with
  a blank entry, no blank keyword is in the matched or in the missing list, while
  \<open>total_keywords\<close> and the denominator of the score count every entry of the list, so
  the two lists together are shorter than \<open>total_keywords\<close>.
\<close>

theorem blank_keywords_counted:
  assumes "cv_text \<noteq> []" and "\<exists>k\<in>set kwds. strip k = []"
    and "analyze_cv lower cv_text kwds algorithm case_sensitive = Some (Inr r)"
  shows "(\<forall>k\<in>set kwds. strip k = [] \<longrightarrow>
            k \<notin> set (matched_keywords r) \<and> k \<notin> set (missing_keywords r)) \<and>
         total_keywords r = length kwds \<and>
         relevance_score r = calculate_relevance_score (matched_keywords r) kwds \<and>
         length (matched_keywords r) + length (missing_keywords r) < total_keywords r"
proof -
  from assms(2) have ne: "kwds \<noteq> []" by auto
  from analyze_cv_result[OF assms(1) ne assms(3)] obtain tc where
    loop: "analyze_loop lower cv_text algorithm case_sensitive kwds ([], [], 0) =
             Some (Inr (matched_keywords r, missing_keywords r, tc))"
    and tot: "total_keywords r = length kwds"
    and sc: "relevance_score r = calculate_relevance_score (matched_keywords r) kwds"
    by blast
  from analyze_loop_account[OF loop]
  have len: "length (matched_keywords r) + length (missing_keywords r) =
               length (filter (\<lambda>k. strip k \<noteq> []) kwds)"
    and sub: "set (matched_keywords r) \<union> set (missing_keywords r) \<subseteq>
               {strip k |k. k \<in> set kwds \<and> strip k \<noteq> []}"
    by simp_all
  from assms(2) obtain b where "b \<in> set kwds" "\<not> strip b \<noteq> []" by auto
  then have "length (filter (\<lambda>k. strip k \<noteq> []) kwds) < length kwds"
    by (rule length_filter_less)
  with len tot have lt: "length (matched_keywords r) + length (missing_keywords r) <
      total_keywords r" by simp
  have "k \<notin> set (matched_keywords r) \<and> k \<notin> set (missing_keywords r)"
    if "strip k = []" for k
  proof -
    have "k \<notin> set (matched_keywords r) \<union> set (missing_keywords r)"
    proof
      assume "k \<in> set (matched_keywords r) \<union> set (missing_keywords r)"
      with sub obtain k' where "k = strip k'" "strip k' \<noteq> []" by blast
      with blank_not_stripped[OF that, of k'] show False by simp
    qed
    then show ?thesis by simp
  qed
  with tot sc lt show ?thesis by blast
qed

text \<open>The theorem at the text \<open>ab\<close> and the keywords \<open>a\<close> and a single space.\<close>

theorem blank_keywords_counted_witness:
  "py ''ab'' \<noteq> [] \<and> (\<exists>k\<in>set [py ''a'', py '' '']. strip k = []) \<and>
   (\<exists>r. analyze_cv ascii_lower (py ''ab'') [py ''a'', py '' ''] (py ''Brute Force'') False =
           Some (Inr r) \<and>
        py '' '' \<notin> set (matched_keywords r) \<and> py '' '' \<notin> set (missing_keywords r) \<and>
        total_keywords r = 2 \<and> relevance_score r = 2296835809958953 / 2 ^ 52 \<and>
        length (matched_keywords r) + length (missing_keywords r) < total_keywords r)"
proof -
  have h1: "py ''ab'' \<noteq> []" by (rule example_nonempty)
  have h2: "\<exists>k\<in>set [py ''a'', py '' '']. strip k = []" by (simp add: example_strip)
  note h3 = example_analyze_cv
  from blank_keywords_counted[OF h1 h2 h3] have
    "py '' '' \<notin> set [py ''a''] \<and> py '' '' \<notin> set [] \<and>
     length [py ''a''] + length ([] :: pystr list) < 2"
    by (simp add: example_strip)
  with h1 h2 h3 show ?thesis by simp
qed

section \<open>Batch orchestration\<close>






section \<open>Ranking\<close>

lemma sorted_reverse_mset: "mset (sorted_reverse key xs) = mset xs"
  by (simp add: sorted_reverse_def)

lemma sorted_reverse_sorted:
  "sorted_wrt (\<lambda>a b. key a \<ge> key b) (sorted_reverse key xs)"
proof -
  have "sorted (map key (sort_key key (rev xs)))" by (rule sorted_sort_key)
  then have "sorted_wrt (\<lambda>a b. key a \<le> key b) (sort_key key (rev xs))"
    by (simp add: sorted_map)
  then show ?thesis by (simp add: sorted_reverse_def sorted_wrt_rev)
qed

lemma sorted_reverse_stable:
  "filter (\<lambda>x. key x = k) (sorted_reverse key xs) = filter (\<lambda>x. key x = k) xs"
  by (simp add: sorted_reverse_def rev_filter[symmetric] sort_key_stable)

lemma example_sorted:
  "sorted_reverse relevance_score
     [example_cv (py ''a'') (1 / 5), example_cv (py ''b'') (9 / 10),
      example_cv (py ''c'') (9 / 10), example_cv (py ''d'') (1 / 10)] =
     [example_cv (py ''b'') (9 / 10), example_cv (py ''c'') (9 / 10),
      example_cv (py ''a'') (1 / 5), example_cv (py ''d'') (1 / 10)]"
  by (simp add: sorted_reverse_def example_cv_def)

text \<open>
  C8, amended: \<open>get_top_matching_cvs\<close> slices the list of the results sorted by score in
  descending order, results of equal score keeping their original order: it returns the
  first \<open>N\<close> entries when \<open>N\<close> is not negative, and all but the last \<open>-N\<close> entries when
  \<open>N\<close> is negative. For the scores 0.2, 0.9, 0.9, 0.1 and \<open>N = 2\<close> it returns the two
  entries of score 0.9 in their original order.
\<close>

theorem top_matching_cvs_sorted:
  "(\<exists>sorted_results.
      mset sorted_results = mset (cv_results batch_result) \<and>
      sorted_wrt (\<lambda>a b. relevance_score a \<ge> relevance_score b) sorted_results \<and>
      (\<forall>s. filter (\<lambda>r. relevance_score r = s) sorted_results =
           filter (\<lambda>r. relevance_score r = s) (cv_results batch_result)) \<and>
      get_top_matching_cvs batch_result top_n =
        (if 0 \<le> top_n then take (nat top_n) sorted_results
         else take (length sorted_results - nat (- top_n)) sorted_results)) \<and>
   get_top_matching_cvs
     (example_batch [example_cv (py ''a'') (1 / 5), example_cv (py ''b'') (9 / 10),
                     example_cv (py ''c'') (9 / 10), example_cv (py ''d'') (1 / 10)]) 2 =
     [example_cv (py ''b'') (9 / 10), example_cv (py ''c'') (9 / 10)]"
proof
  let ?s = "sorted_reverse relevance_score (cv_results batch_result)"
  have "mset ?s = mset (cv_results batch_result) \<and>
      sorted_wrt (\<lambda>a b. relevance_score a \<ge> relevance_score b) ?s \<and>
      (\<forall>s. filter (\<lambda>r. relevance_score r = s) ?s =
           filter (\<lambda>r. relevance_score r = s) (cv_results batch_result)) \<and>
      get_top_matching_cvs batch_result top_n =
        (if 0 \<le> top_n then take (nat top_n) ?s
         else take (length ?s - nat (- top_n)) ?s)"
    by (simp add: sorted_reverse_mset sorted_reverse_sorted sorted_reverse_stable
        get_top_matching_cvs_def slice_to_def Let_def)
  then show "\<exists>sorted_results.
      mset sorted_results = mset (cv_results batch_result) \<and>
      sorted_wrt (\<lambda>a b. relevance_score a \<ge> relevance_score b) sorted_results \<and>
      (\<forall>s. filter (\<lambda>r. relevance_score r = s) sorted_results =
           filter (\<lambda>r. relevance_score r = s) (cv_results batch_result)) \<and>
      get_top_matching_cvs batch_result top_n =
        (if 0 \<le> top_n then take (nat top_n) sorted_results
         else take (length sorted_results - nat (- top_n)) sorted_results)"
    by blast
  show "get_top_matching_cvs
     (example_batch [example_cv (py ''a'') (1 / 5), example_cv (py ''b'') (9 / 10),
                     example_cv (py ''c'') (9 / 10), example_cv (py ''d'') (1 / 10)]) 2 =
     [example_cv (py ''b'') (9 / 10), example_cv (py ''c'') (9 / 10)]"
    by (simp add: get_top_matching_cvs_def example_batch_def example_sorted slice_to_def Let_def)
qed

text \<open>
  C8 as stated fails at a negative \<open>N\<close>: for four results and \<open>N = -1\<close> the call returns
  three entries, where the first \<open>N\<close> entries of the sorted list are none.
\<close>

theorem top_matching_cvs_sorted_counterexample:
  "get_top_matching_cvs
     (example_batch [example_cv (py ''a'') (1 / 5), example_cv (py ''b'') (9 / 10),
                     example_cv (py ''c'') (9 / 10), example_cv (py ''d'') (1 / 10)]) (- 1) =
     [example_cv (py ''b'') (9 / 10), example_cv (py ''c'') (9 / 10),
      example_cv (py ''a'') (1 / 5)] \<and>
   get_top_matching_cvs
     (example_batch [example_cv (py ''a'') (1 / 5), example_cv (py ''b'') (9 / 10),
                     example_cv (py ''c'') (9 / 10), example_cv (py ''d'') (1 / 10)]) (- 1) \<noteq>
     take (nat (- 1))
       (sorted_reverse relevance_score
          (cv_results
             (example_batch [example_cv (py ''a'') (1 / 5), example_cv (py ''b'') (9 / 10),
                example_cv (py ''c'') (9 / 10), example_cv (py ''d'') (1 / 10)])))"
  by (simp add: get_top_matching_cvs_def example_batch_def example_sorted slice_to_def Let_def)

section \<open>The extraction time of the PDF extractor\<close>

text \<open>
  C5: \<open>extraction_time\<close> is the elapsed time only when validation passes and the library
  is available (whether extraction then succeeds or raises); after a failed validation, as
  for a path with no file, the result has the error \<open>Invalid PDF file\<close> and the initial
  \<open>extraction_time\<close> 0.0 while the clock has advanced.
\<close>

theorem extract_text_time:
  "extraction_time
     (extract_text lower fs pdf_available pipeline start_time end_time file_path) =
     (if validate_file lower fs file_path \<and> pdf_available then end_time - start_time else 0) \<and>
   extraction_time
     (extract_text ascii_lower (\<lambda>p. None) True (\<lambda>p. Inl []) 10 12 (py ''missing.pdf'')
        :: unit ExtractResult) = 0 \<and>
   error
     (extract_text ascii_lower (\<lambda>p. None) True (\<lambda>p. Inl []) 10 12 (py ''missing.pdf'')
        :: unit ExtractResult) = Some (py ''Invalid PDF file'')"
  by (auto simp: extract_text_def validate_file_def Let_def split: sum.splits prod.splits)

end
